theory Spec2Isabelle
  imports Main "HOL-Library.Word" "HOL-Library.Multiset" "HOL-Library.Signed_Division"
begin

unbundle bit_operations_syntax

section \<open>Basic types and constants\<close>

text \<open>
  Go's \<open>[]byte\<close> is a list of 8-bit words. \<open>time.Time\<close> is an instant counted in
  nanoseconds from the zero time (so \<open>IsZero\<close> is equality with 0), \<open>time.Duration\<close> a
  number of nanoseconds. Go's \<open>int\<close> is modelled as \<open>int\<close>: the counters and indices of
  this program are bounded by the length of a slice, so they never wrap; the one
  product of a caller-supplied \<open>int\<close> (\<open>count*2\<close> in \<open>GetBestRoutes\<close>) has its
  wrap-around written out.
\<close>

type_synonym byte = "8 word"
type_synonym Time = int
type_synonym Duration = int

text \<open>
  A run-time panic of the Go program, or the fatal error of an allocation that the
  machine cannot serve.
\<close>

datatype panic =
  IndexOutOfRange | SliceBoundsOutOfRange | NilDereference | NegativeLen | DivideByZero |
  CapOutOfRange | OutOfMemory

definition K :: int where
  "K = 20"

definition ALPHA :: int where
  "ALPHA = 3"

definition KEY_BITS :: int where
  "KEY_BITS = 256"

definition KEY_BYTES :: int where
  "KEY_BYTES = KEY_BITS div 8"

definition VALUE_BYTES :: int where
  "VALUE_BYTES = 32 * 1024"

section \<open>Identity and XOR metric\<close>

text \<open>
  \<open>bits.LeadingZeros8\<close> of the Go standard library is \<open>8 - Len8 x\<close>, where \<open>Len8 x\<close>
  is the minimum number of bits needed to represent \<open>x\<close> (0 for \<open>x = 0\<close>).
\<close>

fun bit_len :: "nat \<Rightarrow> nat" where
  "bit_len n = (if n = 0 then 0 else Suc (bit_len (n div 2)))"

declare bit_len.simps [simp del]

definition Len8 :: "byte \<Rightarrow> int" where
  "Len8 x = int (bit_len (unat x))"

definition LeadingZeros8 :: "byte \<Rightarrow> int" where
  "LeadingZeros8 x = 8 - Len8 x"

text \<open>
  The loop of \<open>distance\<close>: \<open>i\<close> runs from 0 to \<open>KEY_BYTES - 1\<close>; reading
  \<open>localID[i]\<close> or \<open>targetID[i]\<close> past the end of a slice panics.
\<close>

function distance_loop :: "nat \<Rightarrow> byte list \<Rightarrow> byte list \<Rightarrow> int \<Rightarrow> panic + int" where
  "distance_loop i localID targetID pfx =
     (if int i < KEY_BYTES then
        (if i < length localID \<and> i < length targetID then
           (let d = (localID ! i) XOR (targetID ! i) in
            if d = 0 then distance_loop (Suc i) localID targetID (pfx + 8)
            else Inr (pfx + LeadingZeros8 d))
         else Inl IndexOutOfRange)
      else Inr pfx)"
  by pat_completeness auto
termination
  by (relation "measure (\<lambda>(i, a, b, p). nat KEY_BYTES - i)") (auto simp: KEY_BYTES_def KEY_BITS_def)

declare distance_loop.simps [simp del]

definition distance :: "byte list \<Rightarrow> byte list \<Rightarrow> panic + int" where
  "distance localID targetID = distance_loop 0 localID targetID 0"

definition bucketID :: "byte list \<Rightarrow> byte list \<Rightarrow> panic + int" where
  "bucketID localID targetID =
     (case distance localID targetID of
        Inl e \<Rightarrow> Inl e
      | Inr pfx \<Rightarrow>
          (let d = KEY_BITS - pfx in
           if d = 0 then Inr d else Inr (d - 1)))"

section \<open>Nodes and buckets\<close>

text \<open>
  The struct \<open>node\<close>. The field \<open>id\<close> is called \<open>node_id\<close> here; \<open>address\<close> is a
  pointer and may be nil; \<open>failCount\<close> is an \<open>int32\<close>.
\<close>

type_synonym UDPAddr = "byte list \<times> int"

record node =
  node_id :: "byte list"
  address :: "UDPAddr option"
  seen :: Time
  pending :: int
  latency :: Duration
  failCount :: "32 word"
  testMode :: bool

text \<open>
  The struct \<open>bucket\<close> (\<open>size\<close>, \<open>expiry\<close>, \<open>nodes\<close>, \<open>cache\<close>). The slices hold
  pointers, so an entry is \<open>None\<close> for nil. The mutex is not modelled: every operation
  below runs under it.
\<close>

record bucket =
  b_size :: int
  expiry :: Duration
  b_nodes :: "node option list"
  cache :: "node option list"

text \<open>
  Go's \<open>copy(xs[d:], xs[s:])\<close> on one slice: the slice expressions panic unless
  \<open>0 \<le> d, s \<le> len(xs)\<close>; then \<open>min (len - d) (len - s)\<close> elements move, and the
  rest of the slice stays as it was.
\<close>

definition copy_within :: "'a list \<Rightarrow> int \<Rightarrow> int \<Rightarrow> panic + 'a list" where
  "copy_within xs d s =
     (if 0 \<le> d \<and> d \<le> int (length xs) \<and> 0 \<le> s \<and> s \<le> int (length xs) then
        (let n = min (length xs - nat d) (length xs - nat s) in
         Inr (take (nat d) xs @ take n (drop (nat s) xs) @ drop (nat d + n) xs))
      else Inl SliceBoundsOutOfRange)"

text \<open>An indexed store \<open>xs[i] = v\<close> with Go's bounds check.\<close>

definition store_at :: "'a list \<Rightarrow> int \<Rightarrow> 'a \<Rightarrow> panic + 'a list" where
  "store_at xs i v =
     (if 0 \<le> i \<and> i < int (length xs) then Inr (xs[nat i := v]) else Inl IndexOutOfRange)"

definition bucket_full :: "bucket \<Rightarrow> bool" where
  "bucket_full b = (b_size b = K)"

text \<open>
  \<open>bucket.remove\<close>: the loop runs \<open>i\<close> from \<open>size - 1\<close> down to 0;
  \<open>remove_loop m\<close> is the iterations \<open>i = m - 1, ..., 0\<close>. It returns the removed node
  (nil when the id is absent) and the bucket.
\<close>

fun remove_loop :: "nat \<Rightarrow> bucket \<Rightarrow> byte list \<Rightarrow> panic + (node option \<times> bucket)" where
  "remove_loop 0 b nodeID = Inr (None, b)"
| "remove_loop (Suc i) b nodeID =
     (if i < length (b_nodes b) then
        (case b_nodes b ! i of
           None \<Rightarrow> Inl NilDereference
         | Some r \<Rightarrow>
             if node_id r = nodeID then
               (case copy_within (b_nodes b) (int i) (int i + 1) of
                  Inl e \<Rightarrow> Inl e
                | Inr ns \<Rightarrow> Inr (Some r, b\<lparr>b_nodes := ns, b_size := b_size b - 1\<rparr>))
             else remove_loop i b nodeID)
      else Inl IndexOutOfRange)"

definition bucket_remove :: "bucket \<Rightarrow> byte list \<Rightarrow> panic + (node option \<times> bucket)" where
  "bucket_remove b nodeID = remove_loop (nat (b_size b)) b nodeID"

text \<open>\<open>bucket.stash\<close>: refresh the cached node with the same id, else append.\<close>

fun stash_cache :: "node option list \<Rightarrow> node \<Rightarrow> Time \<Rightarrow> panic + node option list" where
  "stash_cache [] n now = Inr [Some n]"
| "stash_cache (None # cs) n now = Inl NilDereference"
| "stash_cache (Some c # cs) n now =
     (if node_id c = node_id n then Inr (Some (c\<lparr>seen := now\<rparr>) # cs)
      else (case stash_cache cs n now of
              Inl e \<Rightarrow> Inl e
            | Inr cs' \<Rightarrow> Inr (Some c # cs')))"

definition bucket_stash :: "bucket \<Rightarrow> node \<Rightarrow> Time \<Rightarrow> panic + bucket" where
  "bucket_stash b n now =
     (case stash_cache (cache b) n now of
        Inl e \<Rightarrow> Inl e
      | Inr cs \<Rightarrow> Inr (b\<lparr>cache := cs\<rparr>))"

text \<open>
  The scan for a stale entry in \<open>bucket.insert\<close>, over the indices \<open>0 .. size - 1\<close>.
  The test of staleness reads \<open>n.seen\<close>, the timestamp of the new node \<open>n\<close>, as the
  source does. \<open>en.pending\<close> is read in both branches of the inner conditional, so a
  nil entry panics whenever the outer test holds.
\<close>

fun stale_scan ::
  "bucket \<Rightarrow> node \<Rightarrow> Time \<Rightarrow> nat list \<Rightarrow> node option \<Rightarrow> int \<Rightarrow> panic + (node option \<times> int)" where
  "stale_scan b n now [] stale si = Inr (stale, si)"
| "stale_scan b n now (i # rest) stale si =
     (if i < length (b_nodes b) then
        (if now > seen n + expiry b then
           (case b_nodes b ! i of
              None \<Rightarrow> Inl NilDereference
            | Some en \<Rightarrow>
                (case stale of
                   None \<Rightarrow>
                     if pending en > 1 then stale_scan b n now rest (Some en) (int i)
                     else stale_scan b n now rest stale si
                 | Some st \<Rightarrow>
                     if pending en > pending st then stale_scan b n now rest (Some en) (int i)
                     else stale_scan b n now rest stale si))
         else stale_scan b n now rest stale si)
      else Inl IndexOutOfRange)"

text \<open>
  \<open>bucket.insert\<close>. \<open>now\<close> is the reading of \<open>time.Now()\<close> during the call. The new
  node is built without \<open>seen\<close> and \<open>pending\<close>, which are therefore zero. The result
  carries the returned boolean and the bucket.
\<close>

definition new_node :: "byte list \<Rightarrow> UDPAddr option \<Rightarrow> Duration \<Rightarrow> bool \<Rightarrow> node" where
  "new_node ident addr lat tm =
     \<lparr>node_id = ident, address = addr, seen = 0, pending = 0, latency = lat,
      failCount = 0, testMode = tm\<rparr>"

definition bucket_insert ::
  "bucket \<Rightarrow> byte list \<Rightarrow> UDPAddr option \<Rightarrow> Duration \<Rightarrow> bool \<Rightarrow> Time \<Rightarrow> panic + (bool \<times> bucket)" where
  "bucket_insert b ident addr lat tm now =
     (case bucket_remove b ident of
        Inl e \<Rightarrow> Inl e
      | Inr (Some rn, b1) \<Rightarrow>
          (case store_at (b_nodes b1) (b_size b1)
                  (Some (rn\<lparr>seen := now, latency := lat, testMode := tm\<rparr>)) of
             Inl e \<Rightarrow> Inl e
           | Inr ns \<Rightarrow> Inr (True, b1\<lparr>b_nodes := ns, b_size := b_size b1 + 1\<rparr>))
      | Inr (None, b1) \<Rightarrow>
          (let n = new_node ident addr lat tm in
           if \<not> bucket_full b1 then
             (case store_at (b_nodes b1) (b_size b1) (Some (n\<lparr>seen := now\<rparr>)) of
                Inl e \<Rightarrow> Inl e
              | Inr ns \<Rightarrow> Inr (True, b1\<lparr>b_nodes := ns, b_size := b_size b1 + 1\<rparr>))
           else
             (case stale_scan b1 n now [0 ..< nat (b_size b1)] None 0 of
                Inl e \<Rightarrow> Inl e
              | Inr (Some st, si) \<Rightarrow>
                  (case copy_within (b_nodes b1) si (si + 1) of
                     Inl e \<Rightarrow> Inl e
                   | Inr ns \<Rightarrow>
                       (case store_at ns (b_size b1) (Some n) of
                          Inl e \<Rightarrow> Inl e
                        | Inr ns' \<Rightarrow> Inr (True, b1\<lparr>b_nodes := ns'\<rparr>)))
              | Inr (None, si) \<Rightarrow>
                  (case bucket_stash b1 n now of
                     Inl e \<Rightarrow> Inl e
                   | Inr b2 \<Rightarrow> Inr (True, b2)))))"

section \<open>Routing table\<close>

text \<open>
  The struct \<open>routingTable\<close>. \<open>localNode\<close> is a pointer that every caller sets to a
  fresh node, so it is a node here. \<open>newRoutingTable\<close> allocates \<open>KEY_BITS\<close> buckets
  whose \<open>nodes\<close> slices have length \<open>K\<close>; their \<open>expiry\<close> stays zero.
\<close>

record routingTable =
  localNode :: node
  buckets :: "bucket list"

definition newRoutingTable :: "node \<Rightarrow> routingTable" where
  "newRoutingTable ln =
     \<lparr>localNode = ln,
      buckets = replicate (nat KEY_BITS)
        \<lparr>b_size = 0, expiry = 0, b_nodes = replicate (nat K) None, cache = []\<rparr>\<rparr>"

definition routingTable_insert ::
  "routingTable \<Rightarrow> byte list \<Rightarrow> UDPAddr option \<Rightarrow> Duration \<Rightarrow> bool \<Rightarrow> Time \<Rightarrow> panic + routingTable" where
  "routingTable_insert t ident addr lat tm now =
     (case bucketID (node_id (localNode t)) ident of
        Inl e \<Rightarrow> Inl e
      | Inr i \<Rightarrow>
          if 0 \<le> i \<and> i < int (length (buckets t)) then
            (case bucket_insert (buckets t ! nat i) ident addr lat tm now of
               Inl e \<Rightarrow> Inl e
             | Inr (r, b') \<Rightarrow> Inr (t\<lparr>buckets := (buckets t)[nat i := b']\<rparr>))
          else Inl IndexOutOfRange)"

text \<open>
  \<open>bucket.iterate\<close> calls its argument on \<open>nodes[0], ..., nodes[size - 1]\<close>;
  \<open>iterate_from\<close> returns the entries visited, in order.
\<close>

fun iterate_from :: "node option list \<Rightarrow> nat list \<Rightarrow> panic + node option list" where
  "iterate_from ns [] = Inr []"
| "iterate_from ns (i # rest) =
     (if i < length ns then
        (case iterate_from ns rest of
           Inl e \<Rightarrow> Inl e
         | Inr vs \<Rightarrow> Inr (ns ! i # vs))
      else Inl IndexOutOfRange)"

definition bucket_iterate :: "bucket \<Rightarrow> panic + node option list" where
  "bucket_iterate b = iterate_from (b_nodes b) [0 ..< nat (b_size b)]"

text \<open>
  The scanning loop of \<open>closestN\<close> (\<open>for { ... }\<close>), with its variables \<open>offset\<close>,
  \<open>i\<close>, \<open>scanned\<close> and \<open>nodes\<close>. The loop has no bound of its own, so the result is
  an option: \<open>None\<close> is a loop that never ends.
\<close>

partial_function (option) closestN_loop ::
  "routingTable \<Rightarrow> int \<Rightarrow> int \<Rightarrow> int \<Rightarrow> int \<Rightarrow> node option list \<Rightarrow> (panic + node option list) option" where
  "closestN_loop t cnt offset i scanned nodes =
     (if offset > -1 \<and> offset < KEY_BITS then
        (if offset < int (length (buckets t)) then
           (case bucket_iterate (buckets t ! nat offset) of
              Inl e \<Rightarrow> Some (Inl e)
            | Inr vs \<Rightarrow>
                if int (length (nodes @ vs)) \<ge> cnt then Some (Inr (nodes @ vs))
                else if scanned + 1 \<ge> KEY_BITS then Some (Inr (nodes @ vs))
                else closestN_loop t cnt
                       (if i mod 2 = 0 then offset + i + 1 else offset - i - 1)
                       (i + 1) (scanned + 1) (nodes @ vs))
         else Some (Inl IndexOutOfRange))
      else if scanned \<ge> KEY_BITS then Some (Inr nodes)
      else closestN_loop t cnt
             (if i mod 2 = 0 then offset + i + 1 else offset - i - 1)
             (i + 1) scanned nodes)"

declare closestN_loop.simps [code]

text \<open>
  \<open>sort.Slice(nodes, less)\<close> with \<open>less\<close> comparing \<open>distance(nodes[i].id, id)\<close>.
  The library sort is a parameter \<open>srt\<close> acting on the nodes paired with their
  distances; it calls \<open>less\<close> on every element when there are at least two, so a nil
  node or a failing \<open>distance\<close> panics then (the first in slice order is reported),
  and it calls nothing on a shorter slice.
\<close>

fun distances_to :: "node option list \<Rightarrow> byte list \<Rightarrow> panic + (int \<times> node) list" where
  "distances_to [] ident = Inr []"
| "distances_to (None # ns) ident = Inl NilDereference"
| "distances_to (Some n # ns) ident =
     (case distance (node_id n) ident of
        Inl e \<Rightarrow> Inl e
      | Inr d \<Rightarrow>
          (case distances_to ns ident of
             Inl e \<Rightarrow> Inl e
           | Inr ks \<Rightarrow> Inr ((d, n) # ks)))"

definition sort_by_distance ::
  "((int \<times> node) list \<Rightarrow> (int \<times> node) list) \<Rightarrow> node option list \<Rightarrow> byte list \<Rightarrow> panic + node option list" where
  "sort_by_distance srt nodes ident =
     (if length nodes < 2 then Inr nodes
      else (case distances_to nodes ident of
              Inl e \<Rightarrow> Inl e
            | Inr ks \<Rightarrow> Inr (map (Some \<circ> snd) (srt ks))))"

definition closestN ::
  "((int \<times> node) list \<Rightarrow> (int \<times> node) list) \<Rightarrow> routingTable \<Rightarrow> byte list \<Rightarrow> int \<Rightarrow>
     (panic + node option list) option" where
  "closestN srt t ident cnt =
     (case bucketID (node_id (localNode t)) ident of
        Inl e \<Rightarrow> Some (Inl e)
      | Inr offset \<Rightarrow>
          (case closestN_loop t cnt offset 0 0 [] of
             None \<Rightarrow> None
           | Some (Inl e) \<Rightarrow> Some (Inl e)
           | Some (Inr nodes) \<Rightarrow>
               (case sort_by_distance srt nodes ident of
                  Inl e \<Rightarrow> Some (Inl e)
                | Inr ns \<Rightarrow>
                    if int (length ns) < cnt then Some (Inr ns)
                    else if cnt < 0 then Some (Inl SliceBoundsOutOfRange)
                    else Some (Inr (take (nat cnt) ns)))))"

text \<open>
  A sort that meets the contract of \<open>sort.Slice\<close> for this \<open>less\<close>: descending
  by distance.
\<close>

definition sort_distance_desc :: "(int \<times> node) list \<Rightarrow> (int \<times> node) list" where
  "sort_distance_desc ks = sort_key (\<lambda>p. - fst p) ks"

section \<open>Journey\<close>

text \<open>
  The struct \<open>journey\<close>. The seeded \<open>maphash.Hash\<close> is used only as
  \<open>Reset; Write x; Sum64\<close>, a function of \<open>x\<close> fixed when the journey is created:
  the field \<open>hasher\<close>. \<open>nodes\<close> is called \<open>j_nodes\<close> and \<open>values\<close> \<open>j_values\<close>.
\<close>

record journey =
  source :: "byte list"
  destination :: "byte list"
  visited :: "64 word set"
  j_values :: "64 word set"
  outstanding :: "64 word \<rightharpoonup> int"
  hasher :: "byte list \<Rightarrow> 64 word"
  j_nodes :: "node option list"
  distances :: "int list"
  routes :: int
  remaining :: int
  inflight :: int
  completed :: bool

definition newJourney ::
  "(byte list \<Rightarrow> 64 word) \<Rightarrow> byte list \<Rightarrow> byte list \<Rightarrow> int \<Rightarrow> journey" where
  "newJourney h src dst iterations =
     \<lparr>source = src, destination = dst, visited = {}, j_values = {},
      outstanding = Map.empty, hasher = h,
      j_nodes = replicate (nat K) None, distances = replicate (nat K) 0,
      routes = 0, remaining = iterations, inflight = 0, completed = False\<rparr>"

text \<open>
  The inner loop of \<open>journey.add\<close> on a full list: replace the first entry, in slice
  order, whose distance is smaller than \<open>d\<close>, and forget that it was visited.
\<close>

fun replace_scan :: "journey \<Rightarrow> node \<Rightarrow> int \<Rightarrow> nat list \<Rightarrow> panic + journey" where
  "replace_scan j n d [] = Inr j"
| "replace_scan j n d (i # rest) =
     (if i < length (distances j) then
        (if distances j ! i < d then
           (if i < length (j_nodes j) then
              (case j_nodes j ! i of
                 None \<Rightarrow> Inl NilDereference
               | Some old \<Rightarrow>
                   Inr (j\<lparr>visited := visited j - {hasher j (node_id old)},
                          j_nodes := (j_nodes j)[i := Some n],
                          distances := (distances j)[i := d]\<rparr>))
            else Inl IndexOutOfRange)
         else replace_scan j n d rest)
      else Inl IndexOutOfRange)"

text \<open>The body of the outer loop of \<open>journey.add\<close>, for one element of \<open>nodes\<close>.\<close>

definition add_node :: "journey \<Rightarrow> node option \<Rightarrow> panic + journey" where
  "add_node j entry =
     (case entry of
        None \<Rightarrow> Inl NilDereference
      | Some n \<Rightarrow>
          if node_id n = source j then Inr j
          else
            (let k = hasher j (node_id n) in
             case distance (node_id n) (destination j) of
               Inl e \<Rightarrow> Inl e
             | Inr d \<Rightarrow>
                 if k \<in> visited j then Inr j
                 else
                   (let j1 = j\<lparr>visited := insert k (visited j)\<rparr> in
                    if routes j1 < K then
                      (case store_at (j_nodes j1) (routes j1) (Some n) of
                         Inl e \<Rightarrow> Inl e
                       | Inr ns \<Rightarrow>
                           (case store_at (distances j1) (routes j1) d of
                              Inl e \<Rightarrow> Inl e
                            | Inr ds \<Rightarrow>
                                Inr (j1\<lparr>j_nodes := ns, distances := ds,
                                        routes := routes j1 + 1\<rparr>)))
                    else replace_scan j1 n d [0 ..< nat K])))"

fun journey_add :: "journey \<Rightarrow> node option list \<Rightarrow> panic + journey" where
  "journey_add j [] = Inr j"
| "journey_add j (n # ns) =
     (case add_node j n of
        Inl e \<Rightarrow> Inl e
      | Inr j' \<Rightarrow> journey_add j' ns)"

text \<open>\<open>journey.Less\<close> on two routes, each a node with its distance.\<close>

definition journey_Less :: "node \<times> int \<Rightarrow> node \<times> int \<Rightarrow> bool" where
  "journey_Less x y =
     (if snd x \<noteq> snd y then snd x > snd y else latency (fst x) < latency (fst y))"

text \<open>
  The pairs \<open>(nodes[i], distances[i])\<close> of two slices of equal length; a nil node is
  a panic.
\<close>

fun live_routes :: "node option list \<Rightarrow> int list \<Rightarrow> panic + (node \<times> int) list" where
  "live_routes (Some n # ns) (d # ds) =
     (case live_routes ns ds of
        Inl e \<Rightarrow> Inl e
      | Inr ps \<Rightarrow> Inr ((n, d) # ps))"
| "live_routes (None # ns) (d # ds) = Inl NilDereference"
| "live_routes ns ds = Inr []"

text \<open>
  \<open>sort.Sort(j)\<close> permutes the first \<open>routes\<close> entries of \<open>nodes\<close> and \<open>distances\<close>
  together. The library sort is the parameter \<open>srt\<close>. It compares nothing when
  \<open>Len\<close> is below 2. Otherwise \<open>Less\<close> reads \<open>distances\<close> at every index below
  \<open>routes\<close>, and reads or swaps a node on a tie or a reordering: Go panics when it
  touches an index past the end of a slice or the latency of a nil node. The model
  panics whenever \<open>routes\<close> exceeds the length of either slice or a nil entry lies
  among the first \<open>routes\<close>; a journey made by \<open>newJourney\<close>, \<open>add\<close> and \<open>next\<close> has
  neither (both slices have length \<open>K\<close>, and \<open>add\<close> stores no nil).
\<close>

definition sort_journey ::
  "((node \<times> int) list \<Rightarrow> (node \<times> int) list) \<Rightarrow> journey \<Rightarrow> panic + journey" where
  "sort_journey srt j =
     (if routes j < 2 then Inr j
      else if routes j > int (length (j_nodes j)) \<or> routes j > int (length (distances j))
        then Inl IndexOutOfRange
      else
        (let r = nat (routes j) in
         case live_routes (take r (j_nodes j)) (take r (distances j)) of
           Inl e \<Rightarrow> Inl e
         | Inr ps \<Rightarrow>
             (let qs = srt ps in
              Inr (j\<lparr>j_nodes := map (Some \<circ> fst) qs @ drop r (j_nodes j),
                     distances := map snd qs @ drop r (distances j)\<rparr>))))"

text \<open>
  \<open>journey.next\<close>; the result is the returned slice (empty for nil) and the journey.
  \<open>make([]*node, available)\<close> panics on a negative length and
  \<open>j.nodes[:available]\<close> past the capacity.
\<close>

definition journey_next ::
  "((node \<times> int) list \<Rightarrow> (node \<times> int) list) \<Rightarrow> journey \<Rightarrow> int \<Rightarrow>
     panic + (node option list \<times> journey)" where
  "journey_next srt j cnt =
     (if remaining j = 0 \<or> routes j = 0 \<or> completed j then Inr ([], j)
      else
        (let j1 = j\<lparr>remaining := remaining j - 1\<rparr>;
             available = (if routes j1 < cnt then routes j1 else cnt);
             j2 = j1\<lparr>inflight := inflight j1 + available\<rparr>
         in case sort_journey srt j2 of
              Inl e \<Rightarrow> Inl e
            | Inr j3 \<Rightarrow>
                if available < 0 then Inl NegativeLen
                else if available > int (length (j_nodes j3)) then Inl SliceBoundsOutOfRange
                else
                  (case copy_within (j_nodes j3) 0 available of
                     Inl e \<Rightarrow> Inl e
                   | Inr ns \<Rightarrow>
                       (case copy_within (distances j3) 0 available of
                          Inl e \<Rightarrow> Inl e
                        | Inr ds \<Rightarrow>
                            Inr (take (nat available) (j_nodes j3),
                                 j3\<lparr>j_nodes := ns, distances := ds,
                                    routes := routes j3 - available\<rparr>)))))"

text \<open>A sort that meets the contract of \<open>sort.Sort\<close> for \<open>journey.Less\<close>.\<close>

fun insert_route :: "node \<times> int \<Rightarrow> (node \<times> int) list \<Rightarrow> (node \<times> int) list" where
  "insert_route x [] = [x]"
| "insert_route x (y # ys) = (if journey_Less y x then y # insert_route x ys else x # y # ys)"

definition sort_routes :: "(node \<times> int) list \<Rightarrow> (node \<times> int) list" where
  "sort_routes ps = foldr insert_route ps []"

text \<open>
  A use of one journey: a sequence of calls of \<open>add\<close> and \<open>next\<close>. \<open>run\<close> is the
  concatenation of the slices returned by the \<open>next\<close> calls, up to the end of the
  sequence or the first panic.
\<close>

datatype call = Add "node option list" | Next int

fun run ::
  "((node \<times> int) list \<Rightarrow> (node \<times> int) list) \<Rightarrow> journey \<Rightarrow> call list \<Rightarrow> node option list" where
  "run srt j [] = []"
| "run srt j (Add ns # cs) =
     (case journey_add j ns of
        Inl e \<Rightarrow> []
      | Inr j' \<Rightarrow> run srt j' cs)"
| "run srt j (Next c # cs) =
     (case journey_next srt j c of
        Inl e \<Rightarrow> []
      | Inr (out, j') \<Rightarrow> out @ run srt j' cs)"

section \<open>In-memory storage\<close>

text \<open>
  The structs \<open>Value\<close>, \<open>item\<close> and \<open>storage\<close>. The \<open>sync.Map\<close> is a map from the
  hash of the key to the item; the pooled hashers share one seed, so they are one
  function \<open>s_hasher\<close>. The field \<open>Value\<close> of \<open>Value\<close> is called \<open>Val\<close>.
\<close>

record Value =
  Key :: "byte list"
  Val :: "byte list"
  TTL :: Duration
  Created :: Time
  expires :: Time

record item =
  contains :: "64 word set"
  i_values :: "Value list"

record storage =
  store :: "64 word \<rightharpoonup> item"
  s_hasher :: "byte list \<Rightarrow> 64 word"

definition newInMemoryStorage :: "(byte list \<Rightarrow> 64 word) \<Rightarrow> storage" where
  "newInMemoryStorage h = \<lparr>store = Map.empty, s_hasher = h\<rparr>"

definition item_insert :: "item \<Rightarrow> 64 word \<Rightarrow> Value \<Rightarrow> bool \<times> item" where
  "item_insert it h v =
     (if h \<in> contains it then (True, it)
      else (True, it\<lparr>contains := insert h (contains it), i_values := i_values it @ [v]\<rparr>))"

text \<open>The counting loop of \<open>storage.Get\<close>.\<close>

fun count_before :: "Value list \<Rightarrow> Time \<Rightarrow> int \<Rightarrow> int" where
  "count_before [] from index = index"
| "count_before (v # vs) from index =
     (if Created v < from then count_before vs from (index + 1)
      else count_before vs from index)"

definition storage_Get :: "storage \<Rightarrow> byte list \<Rightarrow> Time \<Rightarrow> Value list \<times> bool" where
  "storage_Get s k from =
     (case store s (s_hasher s k) of
        None \<Rightarrow> ([], False)
      | Some it \<Rightarrow>
          if from = 0 then (i_values it, True)
          else
            (let index = count_before (i_values it) from 0 in
             if index \<ge> int (length (i_values it)) then ([], False)
             else (drop (nat index) (i_values it), True)))"

text \<open>
  \<open>storage.Set\<close>; \<open>now\<close> is the reading of \<open>time.Now()\<close>. Without a concurrent
  writer \<open>LoadOrStore\<close> stores the new item and the function returns true.
\<close>

definition storage_Set ::
  "storage \<Rightarrow> byte list \<Rightarrow> byte list \<Rightarrow> Time \<Rightarrow> Duration \<Rightarrow> Time \<Rightarrow> bool \<times> storage" where
  "storage_Set s k v created ttl now =
     (let key = s_hasher s k;
          vh = s_hasher s v;
          val = \<lparr>Key = k, Val = v, TTL = ttl, Created = created, expires = now + ttl\<rparr>
      in case store s key of
           Some actual \<Rightarrow>
             (let (r, it) = item_insert actual vh val in (r, s\<lparr>store := (store s)(key \<mapsto> it)\<rparr>))
         | None \<Rightarrow>
             (True, s\<lparr>store := (store s)(key \<mapsto> \<lparr>contains = {vh}, i_values = [val]\<rparr>)\<rparr>))"

text \<open>
  One round of \<open>storage.cleanup\<close> after its sleep, at time \<open>now\<close>: every key with a
  value whose \<open>expires\<close> is after \<open>now\<close> is deleted.
\<close>

definition storage_cleanup :: "storage \<Rightarrow> Time \<Rightarrow> storage" where
  "storage_cleanup s now =
     s\<lparr>store := (\<lambda>ky. case store s ky of
                        None \<Rightarrow> None
                      | Some it \<Rightarrow>
                          if list_ex (\<lambda>v. expires v > now) (i_values it) then None
                          else Some it)\<rparr>"

section \<open>DHT and latency router\<close>

text \<open>
  The fields of \<open>DHT\<close> that \<open>Store\<close> and the latency router use:
  \<open>config.LocalID\<close>, \<open>storage\<close> (the in-memory implementation), \<open>routing\<close>,
  the number of \<open>listeners\<close> and the \<open>int32\<close> counter \<open>cl\<close>.
\<close>

record DHT =
  LocalID :: "byte list"
  d_storage :: storage
  routing :: routingTable
  nlisteners :: int
  cl :: "32 word"

record latencyRouter =
  lr_dht :: DHT
  threshold :: Duration

definition Millisecond :: Duration where
  "Millisecond = 1000000"

definition Hour :: Duration where
  "Hour = 3600 * 1000 * Millisecond"

definition defaultLatencyThreshold :: Duration where
  "defaultLatencyThreshold = 500 * Millisecond"

definition NewLatencyRouter :: "DHT \<Rightarrow> latencyRouter" where
  "NewLatencyRouter d = \<lparr>lr_dht = d, threshold = defaultLatencyThreshold\<rparr>"

text \<open>
  What the network does with one PING of \<open>measureNodeLatency\<close>: the write fails, the
  callback delivers an error, the reply arrives after some time, or the timer of
  \<open>threshold\<close> fires first.
\<close>

datatype ping_result = SendError | ReplyError | Reply Duration | TimedOut

text \<open>
  \<open>measureNodeLatency\<close> returns the latency; the node is returned too, with its
  \<open>failCount\<close> as the function leaves it.
\<close>

definition measureNodeLatency ::
  "latencyRouter \<Rightarrow> (node \<Rightarrow> ping_result) \<Rightarrow> node option \<Rightarrow> panic + (node option \<times> Duration)" where
  "measureNodeLatency lr ping entry =
     (case entry of
        None \<Rightarrow> Inr (None, Hour)
      | Some n \<Rightarrow>
          if address n = None then Inr (Some n, Hour)
          else if testMode n then Inr (Some n, latency n)
          else if nlisteners (lr_dht lr) < 1 then Inl IndexOutOfRange
          else
            (case ping n of
               SendError \<Rightarrow> Inr (Some (n\<lparr>failCount := failCount n + 1\<rparr>), Hour)
             | ReplyError \<Rightarrow> Inr (Some (n\<lparr>failCount := failCount n + 1\<rparr>), Hour)
             | Reply d \<Rightarrow> Inr (Some (n\<lparr>failCount := 0\<rparr>), d)
             | TimedOut \<Rightarrow> Inr (Some (n\<lparr>failCount := failCount n + 1\<rparr>), Hour)))"

text \<open>
  The measuring goroutines of \<open>GetBestRoutes\<close> fill \<open>nodeLatencies[idx]\<close>; the
  network's answer to the PING of goroutine \<open>idx\<close> is \<open>ping idx\<close>.
\<close>

fun measure_all ::
  "latencyRouter \<Rightarrow> (nat \<Rightarrow> node \<Rightarrow> ping_result) \<Rightarrow> nat \<Rightarrow> node option list \<Rightarrow>
     panic + (node option \<times> Duration) list" where
  "measure_all lr ping idx [] = Inr []"
| "measure_all lr ping idx (n # ns) =
     (case measureNodeLatency lr (ping idx) n of
        Inl e \<Rightarrow> Inl e
      | Inr m \<Rightarrow>
          (case measure_all lr ping (Suc idx) ns of
             Inl e \<Rightarrow> Inl e
           | Inr ms \<Rightarrow> Inr (m # ms)))"

text \<open>
  The last loop of \<open>GetBestRoutes\<close>: \<open>i\<close> runs while \<open>i < count\<close> and
  \<open>i < len(nodeLatencies)\<close>; \<open>best_loop th c\<close> is \<open>c\<close> more iterations.
\<close>

fun best_loop :: "Duration \<Rightarrow> nat \<Rightarrow> (node option \<times> Duration) list \<Rightarrow> node option list" where
  "best_loop th 0 nls = []"
| "best_loop th (Suc c) [] = []"
| "best_loop th (Suc c) (nl # nls) =
     (if snd nl < th then fst nl # best_loop th c nls else best_loop th c nls)"

text \<open>Go's \<open>int\<close> arithmetic wraps at 64 bits.\<close>

definition wrap64 :: "int \<Rightarrow> int" where
  "wrap64 x = (x + 2 ^ 63) mod 2 ^ 64 - 2 ^ 63"

text \<open>
  \<open>make([]*node, 0, c)\<close>, a slice of pointers of 8 bytes each. \<open>runtime.makeslice\<close>
  panics (cap out of range) when \<open>c\<close> is negative, when \<open>8 * c\<close> overflows the
  64-bit size, or when it exceeds the runtime's limit \<open>maxAlloc\<close>; otherwise it
  allocates \<open>8 * c\<close> bytes. An allocation of zero bytes always succeeds; a larger
  one that the machine cannot serve ends the program with a fatal error. The limit
  (\<open>2^48\<close> bytes on 64-bit Linux) and the machine's answer to an allocation of a
  number of bytes are the environment \<open>env\<close>.
\<close>

record runtime_env =
  maxAlloc :: int
  alloc_ok :: "int \<Rightarrow> bool"

definition makeslice_cap :: "runtime_env \<Rightarrow> int \<Rightarrow> panic option" where
  "makeslice_cap env c =
     (if c < 0 \<or> 2 ^ 64 \<le> 8 * c \<or> maxAlloc env < 8 * c then Some CapOutOfRange
      else if 0 < 8 * c \<and> \<not> alloc_ok env (8 * c) then Some OutOfMemory
      else None)"

text \<open>
  \<open>GetBestRoutes\<close>. \<open>srtD\<close> is the library sort inside \<open>closestN\<close>, \<open>srtL\<close> the
  \<open>sort.Slice\<close> by latency. The slice \<open>result\<close> is made with the capacity
  \<open>count\<close> after the measurements and the sort, and only when \<open>closestN\<close> found a
  node. The other allocations of the function have the size of the nodes found and
  are taken to succeed.
\<close>

definition GetBestRoutes ::
  "runtime_env \<Rightarrow> ((int \<times> node) list \<Rightarrow> (int \<times> node) list) \<Rightarrow>
   ((node option \<times> Duration) list \<Rightarrow> (node option \<times> Duration) list) \<Rightarrow>
   (nat \<Rightarrow> node \<Rightarrow> ping_result) \<Rightarrow> latencyRouter \<Rightarrow> byte list \<Rightarrow> int \<Rightarrow>
     (panic + node option list) option" where
  "GetBestRoutes env srtD srtL ping lr target cnt =
     (case closestN srtD (routing (lr_dht lr)) target (wrap64 (cnt * 2)) of
        None \<Rightarrow> None
      | Some (Inl e) \<Rightarrow> Some (Inl e)
      | Some (Inr nodes) \<Rightarrow>
          if length nodes = 0 then Some (Inr [])
          else
            (case measure_all lr ping 0 nodes of
               Inl e \<Rightarrow> Some (Inl e)
             | Inr nodeLatencies \<Rightarrow>
                 (case makeslice_cap env cnt of
                    Some e \<Rightarrow> Some (Inl e)
                  | None \<Rightarrow>
                      Some (Inr (best_loop (threshold lr) (nat cnt) (srtL nodeLatencies))))))"

definition sort_latency :: "(node option \<times> Duration) list \<Rightarrow> (node option \<times> Duration) list" where
  "sort_latency nls = sort_key snd nls"

section \<open>Store\<close>

text \<open>
  The errors that \<open>DHT.Store\<close> hands to the callback: the three values it creates
  with \<open>errors.New\<close> (for the key length, the value length and for no nodes) and the
  error returned by a listener's write.
\<close>

datatype store_error = ErrKeyLength | ErrValueLength | ErrNoNodes | ErrWrite string

text \<open>
  What one call of \<open>Store\<close> does before it returns: the invocations of the user's
  callback in order (\<open>None\<close> for \<open>callback(nil)\<close>), the requests handed to a
  listener, each with the index of the listener, the destination node and the values,
  and the DHT, whose storage and counter may have changed. Callbacks of later
  responses are not part of the call.
\<close>

record store_effects =
  callbacks :: "store_error option list"
  requests :: "(int \<times> node \<times> Value list) list"
  dht :: DHT

text \<open>
  The index \<open>(atomic.AddInt32(&d.cl, 1) - 1) % int32(len(d.listeners))\<close> in
  \<open>int32\<close> arithmetic, with Go's truncated remainder.
\<close>

definition next_listener :: "DHT \<Rightarrow> panic + (int \<times> DHT)" where
  "next_listener d =
     (let c = cl d + 1;
          m = (word_of_int (nlisteners d) :: 32 word);
          d' = d\<lparr>cl := c\<rparr>
      in if m = 0 then Inl DivideByZero
         else
           (let idx = sint (c - 1) smod sint m in
            if 0 \<le> idx \<and> idx < nlisteners d then Inr (idx, d') else Inl IndexOutOfRange))"

text \<open>
  The loop of \<open>Store\<close> over the closest nodes \<open>ns\<close>. \<open>write_err\<close> is the outcome of
  the listener's \<open>request\<close> for the \<open>q\<close>-th request: \<open>None\<close> when the write succeeds.
  \<open>len_ns\<close> is \<open>len(ns)\<close>.
\<close>

fun store_loop ::
  "(nat \<Rightarrow> string option) \<Rightarrow> byte list \<Rightarrow> byte list \<Rightarrow> Duration \<Rightarrow> Time \<Rightarrow> nat \<Rightarrow>
   node option list \<Rightarrow> store_effects \<Rightarrow> panic + store_effects" where
  "store_loop write_err key val ttl created len_ns [] eff = Inr eff"
| "store_loop write_err key val ttl created len_ns (None # ns) eff = Inl NilDereference"
| "store_loop write_err key val ttl created len_ns (Some n # ns) eff =
     (if node_id n = LocalID (dht eff) then
        (let d' = (dht eff)\<lparr>d_storage := snd (storage_Set (d_storage (dht eff)) key val created ttl created)\<rparr>;
             eff' = eff\<lparr>dht := d'\<rparr>
         in if len_ns = 1 then Inr (eff'\<lparr>callbacks := callbacks eff' @ [None]\<rparr>)
            else store_loop write_err key val ttl created len_ns ns eff')
      else
        (case next_listener (dht eff) of
           Inl e \<Rightarrow> Inl e
         | Inr (idx, d') \<Rightarrow>
             (let v = \<lparr>Key = key, Val = val, TTL = ttl, Created = created, expires = 0\<rparr>;
                  eff' = eff\<lparr>dht := d', requests := requests eff @ [(idx, n, [v])]\<rparr>
              in case write_err (length (requests eff)) of
                   Some err \<Rightarrow> Inr (eff'\<lparr>callbacks := callbacks eff' @ [Some (ErrWrite err)]\<rparr>)
                 | None \<Rightarrow> store_loop write_err key val ttl created len_ns ns eff')))"

text \<open>\<open>DHT.Store\<close>; \<open>now\<close> is the reading of \<open>time.Now()\<close>.\<close>

definition Store ::
  "((int \<times> node) list \<Rightarrow> (int \<times> node) list) \<Rightarrow> (nat \<Rightarrow> string option) \<Rightarrow>
   DHT \<Rightarrow> byte list \<Rightarrow> byte list \<Rightarrow> Duration \<Rightarrow> Time \<Rightarrow> (panic + store_effects) option" where
  "Store srtD write_err d key val ttl now =
     (if int (length key) \<noteq> KEY_BYTES then
        Some (Inr \<lparr>callbacks = [Some ErrKeyLength], requests = [], dht = d\<rparr>)
      else if int (length val) > VALUE_BYTES then
        Some (Inr \<lparr>callbacks = [Some ErrValueLength], requests = [], dht = d\<rparr>)
      else
        (case closestN srtD (routing d) key K of
           None \<Rightarrow> None
         | Some (Inl e) \<Rightarrow> Some (Inl e)
         | Some (Inr ns) \<Rightarrow>
             if length ns < 1 then
               Some (Inr \<lparr>callbacks = [Some ErrNoNodes], requests = [], dht = d\<rparr>)
             else
               Some (store_loop write_err key val ttl now (length ns) ns
                       \<lparr>callbacks = [], requests = [], dht = d\<rparr>)))"

section \<open>Concrete inputs\<close>

text \<open>Two ids of 32 bytes; they differ first in the last bit of byte 0.\<close>

definition id_a :: "byte list" where
  "id_a = replicate 32 0"

definition id_b :: "byte list" where
  "id_b = replicate 32 1"

text \<open>
  A peer with the id \<open>x, x, ..., x\<close>, and a full bucket of 20 peers with the ids of
  bytes 1 to 20, all last seen at \<open>s\<close>; the first has the pending count \<open>p\<close>, the
  others 0. The slice has the length \<open>K\<close> that \<open>newRoutingTable\<close> gives it; the expiry
  is one minute.
\<close>

definition peer :: "byte \<Rightarrow> int \<Rightarrow> Time \<Rightarrow> node" where
  "peer x p s =
     \<lparr>node_id = replicate 32 x, address = None, seen = s, pending = p, latency = 0,
      failCount = 0, testMode = False\<rparr>"

definition full_bucket :: "int \<Rightarrow> Time \<Rightarrow> bucket" where
  "full_bucket p s =
     \<lparr>b_size = 20, expiry = 60 * 1000 * Millisecond,
      b_nodes = Some (peer 1 p s) # map (\<lambda>i. Some (peer (of_nat i) 0 s)) [2 ..< 21],
      cache = []\<rparr>"

definition id_fresh :: "byte list" where
  "id_fresh = replicate 32 255"

text \<open>An instant about 2023 years after the zero time.\<close>

definition t_now :: Time where
  "t_now = 63800000000000000000"

text \<open>
  An entry that is a node with another id than \<open>ident\<close>, and an entry that is a node
  whose pending count exceeds 1.
\<close>

definition other_node :: "byte list \<Rightarrow> node option \<Rightarrow> bool" where
  "other_node ident e = (case e of None \<Rightarrow> False | Some n \<Rightarrow> node_id n \<noteq> ident)"

definition pending_node :: "node option \<Rightarrow> bool" where
  "pending_node e = (case e of None \<Rightarrow> False | Some n \<Rightarrow> pending n > 1)"

text \<open>
  A hash function for the examples, a storage that uses it, and a key of 32 bytes.
\<close>

definition example_hash :: "byte list \<Rightarrow> 64 word" where
  "example_hash xs = (case xs of [] \<Rightarrow> 0 | x # ys \<Rightarrow> 256 * ucast x + ucast (last xs))"

definition Second :: Duration where
  "Second = 1000 * Millisecond"

definition Minute :: Duration where
  "Minute = 60 * Second"

definition empty_storage :: storage where
  "empty_storage = newInMemoryStorage example_hash"

definition key1 :: "byte list" where
  "key1 = replicate 32 9"

text \<open>
  The storage after \<open>Set(key1, v, created, ttl)\<close> called at the instant \<open>created\<close>.
\<close>

definition stored :: "byte list \<Rightarrow> Time \<Rightarrow> Duration \<Rightarrow> storage" where
  "stored v created ttl = snd (storage_Set empty_storage key1 v created ttl created)"

text \<open>
  The storage after \<open>Set(key1, [1], 10, 1h)\<close> followed by \<open>Set(key1, [2], 5, 1h)\<close>:
  the second value was created before the first.
\<close>

definition stored_out_of_order :: storage where
  "stored_out_of_order =
     snd (storage_Set (snd (storage_Set empty_storage key1 [1] 10 Hour 10)) key1 [2] 5 Hour 11)"

text \<open>
  A routing table and a DHT for the examples. \<open>probe x lat\<close> is a peer in test mode
  with the id \<open>x, ..., x\<close>, an address and the latency \<open>lat\<close>. The table of the local
  node \<open>id_a\<close> holds the local node, as \<open>New\<close> inserts it, and four peers with the
  latencies 600 ms, 50 ms, 10 ms and 700 ms, which share the bucket 250.
\<close>

definition probe :: "byte \<Rightarrow> Duration \<Rightarrow> node" where
  "probe x lat =
     \<lparr>node_id = replicate 32 x, address = Some ([127, 0, 0, 1], 9000 + uint x), seen = 0,
      pending = 0, latency = lat, failCount = 0, testMode = True\<rparr>"

definition insert_all :: "routingTable \<Rightarrow> node list \<Rightarrow> Time \<Rightarrow> routingTable" where
  "insert_all t ns now =
     fold (\<lambda>n t. case routingTable_insert t (node_id n) (address n) (latency n) (testMode n) now of
                    Inl e \<Rightarrow> t
                  | Inr t' \<Rightarrow> t') ns t"

definition local_node :: node where
  "local_node =
     \<lparr>node_id = id_a, address = Some ([127, 0, 0, 1], 9000), seen = 0, pending = 0,
      latency = 0, failCount = 0, testMode = False\<rparr>"

definition example_table :: routingTable where
  "example_table =
     insert_all (newRoutingTable local_node)
       [local_node, probe 4 (600 * Millisecond), probe 5 (50 * Millisecond),
        probe 6 (10 * Millisecond), probe 7 (700 * Millisecond)] 5"

definition example_router :: latencyRouter where
  "example_router =
     NewLatencyRouter
       \<lparr>LocalID = id_a, d_storage = empty_storage, routing = example_table, nlisteners = 2,
        cl = 0\<rparr>"

text \<open>
  A 64-bit Linux machine that serves allocations up to one gibibyte.
\<close>

definition example_env :: runtime_env where
  "example_env = \<lparr>maxAlloc = 2 ^ 48, alloc_ok = (\<lambda>bytes. bytes \<le> 2 ^ 30)\<rparr>"

definition example_dht :: DHT where
  "example_dht =
     \<lparr>LocalID = id_a, d_storage = empty_storage, routing = example_table, nlisteners = 2,
      cl = 0\<rparr>"

text \<open>
  A journey for the examples, from the source \<open>id_fresh\<close> to the destination
  \<open>id_a\<close>. \<open>route_node x z\<close> has the id \<open>x, 0, ..., 0, z\<close>; its distance to the
  destination is the number of leading zero bits of \<open>x\<close>. \<open>full_journey\<close> is the
  state of the new journey after \<open>add\<close> of the 20 nodes of \<open>frontier20\<close>, which are at
  the distances 5, 3, 7, ..., 7.
\<close>

definition route_node :: "byte \<Rightarrow> byte \<Rightarrow> node" where
  "route_node x z =
     \<lparr>node_id = x # replicate 30 0 @ [z], address = None, seen = 0, pending = 0,
      latency = 0, failCount = 0, testMode = False\<rparr>"

definition new_journey :: journey where
  "new_journey = newJourney example_hash id_fresh id_a 20"

definition frontier20 :: "node option list" where
  "frontier20 =
     Some (route_node 4 0) # Some (route_node 16 1) #
     map (\<lambda>i. Some (route_node 1 (of_nat i))) [2 ..< 20]"

definition full_journey :: journey where
  "full_journey =
     new_journey
       \<lparr>visited := set (map (\<lambda>e. case e of None \<Rightarrow> 0 | Some n \<Rightarrow> example_hash (node_id n)) frontier20),
        j_nodes := frontier20,
        distances := 5 # 3 # replicate 18 7,
        routes := 20\<rparr>"

section \<open>Notions used in the statements\<close>

text \<open>
  The variables of the scanning loop of \<open>closestN\<close> at the start of an iteration,
  when the scan began at the bucket \<open>start\<close>: after \<open>2 m\<close> iterations the offset is
  \<open>start - m\<close>, after \<open>2 m + 1\<close> it is \<open>start + m + 1\<close>, and \<open>scanned\<close> counts the
  offsets visited so far that lie in \<open>0 .. 255\<close>.
\<close>

definition scan_inv :: "int \<Rightarrow> int \<Rightarrow> int \<Rightarrow> int \<Rightarrow> bool" where
  "scan_inv start offset i scanned =
     (\<exists>m \<ge> 0.
        (i = 2 * m \<and> offset = start - m \<and>
         scanned = min m (start + 1) + min m (255 - start)) \<or>
        (i = 2 * m + 1 \<and> offset = start + m + 1 \<and>
         scanned = min (m + 1) (start + 1) + min m (255 - start)))"

text \<open>
  The routes of a journey are the first \<open>routes\<close> entries of \<open>nodes\<close>. The hash
  of an entry is the hash of its id. The invariant of a journey \<open>j\<close> that has
  returned the entries \<open>ret\<close> from \<open>next\<close> so far: the routes and the returned
  entries have pairwise different hashes, all marked visited, and \<open>routes\<close> does not
  exceed the length of \<open>nodes\<close>.
\<close>

definition live :: "journey \<Rightarrow> node option list" where
  "live j = take (nat (routes j)) (j_nodes j)"

definition entry_hash :: "(byte list \<Rightarrow> 64 word) \<Rightarrow> node option \<Rightarrow> 64 word option" where
  "entry_hash h e = map_option (\<lambda>n. h (node_id n)) e"

definition journey_inv :: "journey \<Rightarrow> node option list \<Rightarrow> bool" where
  "journey_inv j ret =
     (distinct (map (entry_hash (hasher j)) (live j @ ret)) \<and>
      set (map (entry_hash (hasher j)) (live j @ ret)) \<subseteq> Some ` visited j \<and>
      routes j \<le> int (length (j_nodes j)))"

text \<open>
  A use of a journey in which \<open>add\<close> deletes visited marks: the list is filled; a
  new node replaces the first entry, which loses its mark, is added again and replaces
  the second entry; \<open>next\<close> empties the list; then the second entry and two
  returned nodes are added again.
\<close>

definition example_calls :: "call list" where
  "example_calls =
     [Add frontier20,
      Add [Some (route_node 2 77), Some (route_node 4 0)],
      Next 20,
      Add [Some (route_node 16 1), Some (route_node 2 77), Some (route_node 4 0)],
      Next 5]"

text \<open>
  A well-formed routing table: 256 buckets, the id of the local node has 32 bytes,
  and in every bucket \<open>size\<close> does not exceed the length of \<open>nodes\<close> and the first
  \<open>size\<close> entries are nodes with ids of 32 bytes.
\<close>

definition entry_ok :: "node option \<Rightarrow> bool" where
  "entry_ok e = (case e of None \<Rightarrow> False | Some n \<Rightarrow> length (node_id n) = 32)"

definition bucket_ok :: "bucket \<Rightarrow> bool" where
  "bucket_ok b =
     (b_size b \<le> int (length (b_nodes b)) \<and>
      list_all entry_ok (take (nat (b_size b)) (b_nodes b)))"

definition table_ok :: "routingTable \<Rightarrow> bool" where
  "table_ok t =
     (length (buckets t) = 256 \<and> list_all bucket_ok (buckets t) \<and>
      length (node_id (localNode t)) = 32)"

text \<open>A bucket in whose \<open>nodes\<close> slice no pending count exceeds 1.\<close>

definition no_pending :: "bucket \<Rightarrow> bool" where
  "no_pending b = (\<not> list_ex pending_node (b_nodes b))"

section \<open>Properties of the metric\<close>

lemma bit_len_bound: "n < 2 ^ k \<Longrightarrow> bit_len n \<le> k"
proof (induction k arbitrary: n)
  case 0
  then show ?case by (simp add: bit_len.simps)
next
  case (Suc k)
  show ?case
  proof (cases "n = 0")
    case True
    then show ?thesis by (simp add: bit_len.simps)
  next
    case False
    from Suc.prems have "n div 2 < 2 ^ k" by simp
    then have "bit_len (n div 2) \<le> k" by (rule Suc.IH)
    with False show ?thesis by (subst bit_len.simps) simp
  qed
qed

lemma bit_len_pos: "n \<noteq> 0 \<Longrightarrow> 0 < bit_len n"
  by (subst bit_len.simps) simp

lemma LeadingZeros8_range:
  assumes "d \<noteq> 0"
  shows "0 \<le> LeadingZeros8 d \<and> LeadingZeros8 d \<le> 7"
proof -
  have "unat d < 2 ^ 8"
    using unsigned_less [of d] by simp
  then have "bit_len (unat d) \<le> 8" by (rule bit_len_bound)
  moreover have "unat d \<noteq> 0"
    using assms by (simp add: unat_eq_0)
  then have "0 < bit_len (unat d)" by (rule bit_len_pos)
  ultimately show ?thesis
    by (simp add: LeadingZeros8_def Len8_def)
qed

lemma byte_xor_zero_iff: "(x XOR y = 0) = (x = (y :: byte))"
  by (metis xor.left_neutral xor.assoc xor_self_eq xor.right_neutral)

lemma distance_loop_commute:
  "distance_loop i a b p = distance_loop i b a p"
proof (induction i a b p rule: distance_loop.induct)
  case (1 i a b p)
  show ?case
  proof (cases "int i < KEY_BYTES \<and> i < length a \<and> i < length b \<and> (a ! i) XOR (b ! i) = 0")
    case True
    then have "distance_loop (Suc i) a b (p + 8) = distance_loop (Suc i) b a (p + 8)"
      using "1.IH" by simp
    with True show ?thesis
      by (subst (1 2) distance_loop.simps) (simp add: xor.commute)
  next
    case False
    then show ?thesis
      by (subst (1 2) distance_loop.simps) (auto simp: xor.commute Let_def)
  qed
qed

lemma distance_loop_bounds:
  "length a = 32 \<Longrightarrow> length b = 32 \<Longrightarrow> i \<le> 32 \<Longrightarrow>
    \<exists>r. distance_loop i a b p = Inr r \<and> p \<le> r \<and> r \<le> p + 8 * (32 - int i) \<and>
        ((r = p + 8 * (32 - int i)) = (\<forall>j. i \<le> j \<and> j < 32 \<longrightarrow> a ! j = b ! j))"
proof (induction i a b p rule: distance_loop.induct)
  case (1 i a b p)
  show ?case
  proof (cases "i < 32")
    case False
    with "1.prems" have "i = 32" by simp
    then show ?thesis
      by (subst distance_loop.simps) (auto simp: KEY_BYTES_def KEY_BITS_def)
  next
    case lt: True
    show ?thesis
    proof (cases "(a ! i) XOR (b ! i) = 0")
      case True
      then have eq: "a ! i = b ! i" by (simp add: byte_xor_zero_iff)
      from lt "1.prems" True
      obtain r where r: "distance_loop (Suc i) a b (p + 8) = Inr r"
          "p + 8 \<le> r" "r \<le> p + 8 + 8 * (32 - int (Suc i))"
          "(r = p + 8 + 8 * (32 - int (Suc i))) = (\<forall>j. Suc i \<le> j \<and> j < 32 \<longrightarrow> a ! j = b ! j)"
        using "1.IH" [OF _ _ refl] by (auto simp: KEY_BYTES_def KEY_BITS_def)
      have all: "(\<forall>j. Suc i \<le> j \<and> j < 32 \<longrightarrow> a ! j = b ! j) = (\<forall>j. i \<le> j \<and> j < 32 \<longrightarrow> a ! j = b ! j)"
        using eq by (metis Suc_leD Suc_leI le_neq_implies_less)
      have "distance_loop i a b p = Inr r"
        using lt "1.prems" True r(1)
        by (subst distance_loop.simps) (simp add: KEY_BYTES_def KEY_BITS_def)
      with r all show ?thesis by auto
    next
      case False
      then have ne: "a ! i \<noteq> b ! i" by (simp add: byte_xor_zero_iff)
      have lz: "0 \<le> LeadingZeros8 ((a ! i) XOR (b ! i)) \<and> LeadingZeros8 ((a ! i) XOR (b ! i)) \<le> 7"
        using False by (rule LeadingZeros8_range)
      have "distance_loop i a b p = Inr (p + LeadingZeros8 ((a ! i) XOR (b ! i)))"
        using lt "1.prems" False
        by (subst distance_loop.simps) (simp add: KEY_BYTES_def KEY_BITS_def)
      moreover have "\<not> (\<forall>j. i \<le> j \<and> j < 32 \<longrightarrow> a ! j = b ! j)"
        using ne lt by auto
      ultimately show ?thesis using lz lt by auto
    qed
  qed
qed


lemma distance_Inr:
  assumes "length a = 32" "length b = 32"
  shows "\<exists>r. distance a b = Inr r \<and> 0 \<le> r \<and> r \<le> 256 \<and> ((r = 256) = (a = b))"
proof -
  obtain r where r: "distance_loop 0 a b 0 = Inr r" "0 \<le> r" "r \<le> 0 + 8 * (32 - int 0)"
      "(r = 0 + 8 * (32 - int 0)) = (\<forall>j. 0 \<le> j \<and> j < 32 \<longrightarrow> a ! j = b ! j)"
    using distance_loop_bounds [OF assms, of 0 0] by auto
  have "(\<forall>j. 0 \<le> j \<and> j < 32 \<longrightarrow> a ! j = b ! j) = (a = b)"
    using assms by (auto simp: list_eq_iff_nth_eq)
  with r show ?thesis by (simp add: distance_def)
qed

text \<open>
  C8. For all 32-byte ids \<open>a\<close> and \<open>b\<close>, \<open>distance a b\<close> equals \<open>distance b a\<close>, and
  \<open>distance a a\<close> is 256.
\<close>

theorem distance_symmetric_and_self:
  assumes "length a = 32" "length b = 32"
  shows "distance a b = distance b a \<and> distance a a = Inr 256"
proof -
  have "distance a b = distance b a"
    by (simp add: distance_def distance_loop_commute)
  moreover have "distance a a = Inr 256"
    using distance_Inr [OF assms(1) assms(1)] by auto
  ultimately show ?thesis by simp
qed

theorem distance_symmetric_and_self_witness:
  "length id_a = 32 \<and> length id_b = 32 \<and>
   distance id_a id_b = distance id_b id_a \<and> distance id_a id_a = Inr 256"
proof -
  have la: "length id_a = 32" and lb: "length id_b = 32"
    by (simp_all add: id_a_def id_b_def)
  from distance_symmetric_and_self [OF la lb] la lb show ?thesis by simp
qed

text \<open>
  C7. For 32-byte ids \<open>localID\<close> and \<open>n\<close>, the bucket index is 255 minus the
  distance, and 0 when the ids are identical, which is exactly when the distance is
  256; the index lies in 0..255; \<open>routingTable.insert\<close> changes the bucket at this
  index and no other.
\<close>

theorem bucketID_index:
  assumes "length localID = 32" "length n = 32"
  shows "\<exists>pfx i. distance localID n = Inr pfx \<and> bucketID localID n = Inr i \<and>
           i = (if localID = n then 0 else 255 - pfx) \<and>
           ((pfx = 256) = (localID = n)) \<and> 0 \<le> i \<and> i \<le> 255 \<and>
           (\<forall>t t' addr lat tm now.
              node_id (localNode t) = localID \<and>
              routingTable_insert t n addr lat tm now = Inr t' \<longrightarrow>
              (\<exists>r b'. bucket_insert (buckets t ! nat i) n addr lat tm now = Inr (r, b') \<and>
                       buckets t' = (buckets t)[nat i := b']))"
proof -
  obtain pfx where pfx: "distance localID n = Inr pfx" "0 \<le> pfx" "pfx \<le> 256"
      "(pfx = 256) = (localID = n)"
    using distance_Inr [OF assms] by auto
  define i where "i = (if localID = n then 0 else 255 - pfx)"
  have bid: "bucketID localID n = Inr i"
    using pfx by (auto simp: bucketID_def i_def KEY_BITS_def Let_def)
  have range: "0 \<le> i \<and> i \<le> 255"
    using pfx by (auto simp: i_def)
  have ins: "\<exists>r b'. bucket_insert (buckets t ! nat i) n addr lat tm now = Inr (r, b') \<and>
                    buckets t' = (buckets t)[nat i := b']"
    if "node_id (localNode t) = localID" "routingTable_insert t n addr lat tm now = Inr t'"
    for t t' addr lat tm now
    using that bid
    by (auto simp: routingTable_insert_def split: if_splits sum.splits prod.splits)
  show ?thesis
    using pfx bid range ins unfolding i_def by blast
qed

theorem bucketID_index_witness:
  "length id_a = 32 \<and> length id_b = 32 \<and>
   bucketID id_a id_b = Inr 248 \<and> distance id_a id_b = Inr 7 \<and> bucketID id_a id_a = Inr 0"
proof -
  have la: "length id_a = 32" and lb: "length id_b = 32"
    by (simp_all add: id_a_def id_b_def)
  have ne: "id_a \<noteq> id_b"
    by (simp add: id_a_def id_b_def)
  have b: "bucketID id_a id_b = Inr 248"
    by code_simp
  from bucketID_index [OF la lb] ne b have "distance id_a id_b = Inr 7"
    by auto
  moreover from bucketID_index [OF la la] have "bucketID id_a id_a = Inr 0"
    by auto
  ultimately show ?thesis using la lb b by simp
qed

section \<open>Properties of bucket.insert\<close>

lemma remove_loop_absent:
  "m \<le> length (b_nodes b) \<Longrightarrow>
   \<forall>i < m. \<exists>n. b_nodes b ! i = Some n \<and> node_id n \<noteq> ident \<Longrightarrow>
   remove_loop m b ident = Inr (None, b)"
  by (induction m) auto

lemma stale_scan_finds:
  "\<forall>i \<in> set ixs. i < length (b_nodes b) \<and> b_nodes b ! i \<noteq> None \<Longrightarrow>
   now > seen n + expiry b \<Longrightarrow>
   stale \<noteq> None \<or> (\<exists>i \<in> set ixs. \<exists>en. b_nodes b ! i = Some en \<and> pending en > 1) \<Longrightarrow>
   \<exists>st si'. stale_scan b n now ixs stale si = Inr (Some st, si') \<and>
             (si' = si \<and> stale \<noteq> None \<or> si' \<in> int ` set ixs)"
proof (induction ixs arbitrary: stale si)
  case Nil
  then show ?case by auto
next
  case (Cons i ixs)
  from Cons.prems(1) obtain en where en: "i < length (b_nodes b)" "b_nodes b ! i = Some en"
    by auto
  have rest: "\<forall>i \<in> set ixs. i < length (b_nodes b) \<and> b_nodes b ! i \<noteq> None"
    using Cons.prems(1) by simp
  show ?case
  proof (cases stale)
    case None
    show ?thesis
    proof (cases "pending en > 1")
      case True
      have "\<exists>st si'. stale_scan b n now ixs (Some en) (int i) = Inr (Some st, si') \<and>
             (si' = int i \<and> Some en \<noteq> None \<or> si' \<in> int ` set ixs)"
        by (rule Cons.IH [OF rest Cons.prems(2)]) simp
      with en None True Cons.prems(2) show ?thesis by auto
    next
      case False
      with Cons.prems(3) None en
      have "\<exists>i \<in> set ixs. \<exists>en. b_nodes b ! i = Some en \<and> pending en > 1" by auto
      then have "\<exists>st si'. stale_scan b n now ixs None si = Inr (Some st, si') \<and>
             (si' = si \<and> (None :: node option) \<noteq> None \<or> si' \<in> int ` set ixs)"
        using Cons.IH [OF rest Cons.prems(2), of None si] by blast
      with en None False Cons.prems(2) show ?thesis by auto
    qed
  next
    case (Some st0)
    show ?thesis
    proof (cases "pending en > pending st0")
      case True
      have "\<exists>st si'. stale_scan b n now ixs (Some en) (int i) = Inr (Some st, si') \<and>
             (si' = int i \<and> Some en \<noteq> None \<or> si' \<in> int ` set ixs)"
        by (rule Cons.IH [OF rest Cons.prems(2)]) simp
      with en Some True Cons.prems(2) show ?thesis by auto
    next
      case False
      have "\<exists>st si'. stale_scan b n now ixs (Some st0) si = Inr (Some st, si') \<and>
             (si' = si \<and> Some st0 \<noteq> None \<or> si' \<in> int ` set ixs)"
        by (rule Cons.IH [OF rest Cons.prems(2)]) simp
      with en Some False Cons.prems(2) show ?thesis by auto
    qed
  qed
qed

lemma copy_within_shift_length:
  "0 \<le> d \<Longrightarrow> d < int (length xs) \<Longrightarrow>
   \<exists>ys. copy_within xs d (d + 1) = Inr ys \<and> length ys = length xs"
  by (auto simp: copy_within_def Let_def min_def)

text \<open>
  On a full bucket whose slice has length \<open>K\<close>, with a member whose pending count
  exceeds 1 and an id that is not in the bucket, \<open>insert\<close> finds a stale entry, shifts
  the slice and then stores at index \<open>size = K\<close>, which is out of range.
\<close>

lemma bucket_insert_full_stale:
  assumes len: "length (b_nodes b) = nat K" and sz: "b_size b = K"
    and others: "list_all (other_node ident) (b_nodes b)"
    and pend: "list_ex pending_node (b_nodes b)"
    and late: "now > expiry b"
  shows "bucket_remove b ident = Inr (None, b) \<and> bucket_full b \<and>
    (\<exists>st si ns.
       stale_scan b (new_node ident addr lat tm) now [0 ..< nat (b_size b)] None 0 = Inr (Some st, si) \<and>
       copy_within (b_nodes b) si (si + 1) = Inr ns \<and>
       store_at ns (b_size b) (Some (new_node ident addr lat tm)) = Inl IndexOutOfRange) \<and>
    bucket_insert b ident addr lat tm now = Inl IndexOutOfRange"
proof -
  let ?n = "new_node ident addr lat tm"
  have fresh: "\<forall>i < nat K. \<exists>n. b_nodes b ! i = Some n \<and> node_id n \<noteq> ident"
    using others len
    by (auto simp: list_all_length other_node_def split: option.splits)
  have st: "\<exists>i < nat K. \<exists>en. b_nodes b ! i = Some en \<and> pending en > 1"
    using pend len
    by (auto simp: list_ex_length pending_node_def split: option.splits)
  have rm: "bucket_remove b ident = Inr (None, b)"
    unfolding bucket_remove_def using len sz fresh by (intro remove_loop_absent) auto
  have fl: "bucket_full b" using sz by (simp add: bucket_full_def)
  have "\<exists>st si'. stale_scan b ?n now [0 ..< nat (b_size b)] None 0 = Inr (Some st, si') \<and>
             (si' = 0 \<and> (None :: node option) \<noteq> None \<or> si' \<in> int ` set [0 ..< nat (b_size b)])"
    using len sz fresh st late
    by (intro stale_scan_finds) (auto simp: new_node_def)
  then obtain st si where scan: "stale_scan b ?n now [0 ..< nat (b_size b)] None 0 = Inr (Some st, si)"
    and si: "0 \<le> si" "si < K"
    using sz by (auto simp: K_def)
  obtain ns where ns: "copy_within (b_nodes b) si (si + 1) = Inr ns" "length ns = length (b_nodes b)"
    using copy_within_shift_length [of si "b_nodes b"] si len by auto
  have oob: "store_at ns (b_size b) (Some ?n) = Inl IndexOutOfRange"
    using ns len sz by (simp add: store_at_def K_def)
  have "bucket_insert b ident addr lat tm now = Inl IndexOutOfRange"
    using rm fl scan ns(1) oob by (simp add: bucket_insert_def Let_def)
  with rm fl scan ns(1) oob show ?thesis by blast
qed

text \<open>
  C10. There is a bucket with a slice of length \<open>K\<close>, \<open>size = K\<close> and a member whose
  pending count exceeds 1, and an id not in the bucket, on which \<open>bucket.insert\<close>
  finds no node to refresh, finds the bucket full, finds a stale entry, shifts the
  slice and stores at index \<open>size = K\<close>, one past the end: the call panics with
  an index out of range.
\<close>

theorem bucket_insert_eviction_out_of_range:
  "\<exists>b ident addr lat tm now.
     length (b_nodes b) = nat K \<and> b_size b = K \<and>
     list_all (other_node ident) (b_nodes b) \<and> list_ex pending_node (b_nodes b) \<and>
     bucket_remove b ident = Inr (None, b) \<and> bucket_full b \<and>
     (\<exists>st si ns.
        stale_scan b (new_node ident addr lat tm) now [0 ..< nat (b_size b)] None 0 = Inr (Some st, si) \<and>
        copy_within (b_nodes b) si (si + 1) = Inr ns \<and>
        store_at ns (b_size b) (Some (new_node ident addr lat tm)) = Inl IndexOutOfRange) \<and>
     bucket_insert b ident addr lat tm now = Inl IndexOutOfRange"
proof -
  let ?b = "full_bucket 2 1000"
  have len: "length (b_nodes ?b) = nat K" and sz: "b_size ?b = K"
    by (simp_all add: full_bucket_def K_def)
  have others: "list_all (other_node id_fresh) (b_nodes ?b)"
    by code_simp
  have pend: "list_ex pending_node (b_nodes ?b)"
    by code_simp
  have late: "t_now > expiry ?b"
    by (simp add: t_now_def full_bucket_def Millisecond_def)
  from bucket_insert_full_stale [OF len sz others pend late, of None 0 False]
  show ?thesis using len sz others pend by blast
qed

text \<open>
  The other case of a full bucket: no member has a pending count above 1. The slices
  that \<open>remove\<close> and \<open>insert\<close> produce hold only entries of the slice they start from
  and the node that was stored, and the scan for a stale entry finds none.
\<close>

lemma copy_within_set: "copy_within xs d s = Inr ys \<Longrightarrow> set ys \<subseteq> set xs"
proof -
  assume a: "copy_within xs d s = Inr ys"
  then obtain n where "ys = take (nat d) xs @ take n (drop (nat s) xs) @ drop (nat d + n) xs"
    by (auto simp: copy_within_def Let_def split: if_splits)
  then show ?thesis
    by (auto dest: in_set_takeD in_set_dropD)
qed

lemma store_at_set: "store_at xs i v = Inr ys \<Longrightarrow> set ys \<subseteq> insert v (set xs)"
  using set_update_subset_insert by (fastforce simp: store_at_def split: if_splits)

lemma remove_loop_set:
  "remove_loop m b ident = Inr (rn, b1) \<Longrightarrow>
   set (b_nodes b1) \<subseteq> set (b_nodes b) \<and> (rn = None \<or> rn \<in> set (b_nodes b)) \<and>
   cache b1 = cache b"
proof (induction m)
  case 0
  then show ?case by simp
next
  case (Suc i)
  show ?case
  proof (cases "i < length (b_nodes b)")
    case False
    with Suc.prems show ?thesis by simp
  next
    case True
    show ?thesis
    proof (cases "b_nodes b ! i")
      case None
      with True Suc.prems show ?thesis by simp
    next
      case (Some r)
      show ?thesis
      proof (cases "node_id r = ident")
        case False
        with True Some Suc show ?thesis by simp
      next
        case eq: True
        from True Some have mem: "Some r \<in> set (b_nodes b)"
          by (metis nth_mem)
        from Suc.prems True Some eq obtain ns where
          ns: "copy_within (b_nodes b) (int i) (int i + 1) = Inr ns"
          and res: "rn = Some r" "b1 = b\<lparr>b_nodes := ns, b_size := b_size b - 1\<rparr>"
          by (auto split: sum.splits)
        from copy_within_set [OF ns] mem res show ?thesis by simp
      qed
    qed
  qed
qed

lemma stale_scan_no_pending:
  "\<not> list_ex pending_node (b_nodes b) \<Longrightarrow>
   stale_scan b n now ixs None si = Inr (st, si') \<Longrightarrow> st = None \<and> si' = si"
proof (induction ixs)
  case Nil
  then show ?case by simp
next
  case (Cons i ixs)
  show ?case
  proof (cases "i < length (b_nodes b)")
    case False
    with Cons.prems show ?thesis by simp
  next
    case True
    show ?thesis
    proof (cases "now > seen n + expiry b")
      case False
      with True Cons show ?thesis by simp
    next
      case late: True
      show ?thesis
      proof (cases "b_nodes b ! i")
        case None
        with True late Cons.prems show ?thesis by simp
      next
        case (Some en)
        with True have "Some en \<in> set (b_nodes b)" by (metis nth_mem)
        with Cons.prems(1) have "\<not> pending en > 1"
          by (auto simp: list_ex_iff pending_node_def)
        with True late Some Cons show ?thesis by simp
      qed
    qed
  qed
qed




text \<open>
  No statement of the program assigns the field \<open>pending\<close>: \<open>insert\<close> keeps a bucket
  free of pending counts above 1, a new routing table has only such buckets, and
  \<open>routingTable.insert\<close> keeps them so.
\<close>

lemma bucket_insert_keeps_no_pending:
  assumes ins: "bucket_insert b ident addr lat tm now = Inr (r, b')" and np: "no_pending b"
  shows "no_pending b'"
proof -
  from ins obtain rn b1 where rm: "bucket_remove b ident = Inr (rn, b1)"
    by (auto simp: bucket_insert_def split: sum.splits)
  from remove_loop_set [OF rm [unfolded bucket_remove_def]]
  have sub: "set (b_nodes b1) \<subseteq> set (b_nodes b)" and rn: "rn = None \<or> rn \<in> set (b_nodes b)"
    by simp_all
  have np1: "\<forall>e \<in> set (b_nodes b1). \<not> pending_node e"
    using np sub by (auto simp: no_pending_def list_ex_iff)
  show ?thesis
  proof (cases rn)
    case (Some r0)
    with rn np have p: "\<not> pending_node (Some (r0\<lparr>seen := now, latency := lat, testMode := tm\<rparr>))"
      by (auto simp: no_pending_def list_ex_iff pending_node_def)
    from ins rm Some obtain ns where
      ns: "store_at (b_nodes b1) (b_size b1)
             (Some (r0\<lparr>seen := now, latency := lat, testMode := tm\<rparr>)) = Inr ns"
      and b': "b' = b1\<lparr>b_nodes := ns, b_size := b_size b1 + 1\<rparr>"
      by (auto simp: bucket_insert_def split: sum.splits)
    from store_at_set [OF ns] np1 p show ?thesis
      unfolding b' no_pending_def list_ex_iff by auto
  next
    case None
    let ?n = "new_node ident addr lat tm"
    show ?thesis
    proof (cases "bucket_full b1")
      case False
      have p: "\<not> pending_node (Some (?n\<lparr>seen := now\<rparr>))"
        by (simp add: pending_node_def new_node_def)
      from ins rm None False obtain ns where
        ns: "store_at (b_nodes b1) (b_size b1) (Some (?n\<lparr>seen := now\<rparr>)) = Inr ns"
        and b': "b' = b1\<lparr>b_nodes := ns, b_size := b_size b1 + 1\<rparr>"
        by (auto simp: bucket_insert_def Let_def split: sum.splits)
      from store_at_set [OF ns] np1 p show ?thesis
        unfolding b' no_pending_def list_ex_iff by auto
    next
      case True
      have np1': "\<not> list_ex pending_node (b_nodes b1)"
        using np1 by (simp add: list_ex_iff)
      from ins rm None True obtain st si where
        sc: "stale_scan b1 ?n now [0 ..< nat (b_size b1)] None 0 = Inr (st, si)"
        by (auto simp: bucket_insert_def Let_def split: sum.splits)
      from stale_scan_no_pending [OF np1' sc] have "st = None" by simp
      with ins rm None True sc obtain b2 where "bucket_stash b1 ?n now = Inr b2" "b' = b2"
        by (auto simp: bucket_insert_def Let_def split: sum.splits)
      then have "b_nodes b' = b_nodes b1"
        by (auto simp: bucket_stash_def split: sum.splits)
      with np1' show ?thesis by (simp add: no_pending_def)
    qed
  qed
qed

lemma newRoutingTable_no_pending: "list_all no_pending (buckets (newRoutingTable ln))"
  by (simp add: newRoutingTable_def no_pending_def list_all_iff list_ex_iff pending_node_def)

lemma routingTable_insert_keeps_no_pending:
  assumes "routingTable_insert t ident addr lat tm now = Inr t'"
    and "list_all no_pending (buckets t)"
  shows "list_all no_pending (buckets t')"
proof -
  from assms(1) obtain i r b' where i: "0 \<le> i" "i < int (length (buckets t))"
    and ins: "bucket_insert (buckets t ! nat i) ident addr lat tm now = Inr (r, b')"
    and t': "buckets t' = (buckets t)[nat i := b']"
    by (auto simp: routingTable_insert_def split: sum.splits if_splits)
  from i assms(2) have "no_pending (buckets t ! nat i)"
    by (simp add: list_all_length)
  from bucket_insert_keeps_no_pending [OF ins this] have "no_pending b'" .
  with assms(2) show ?thesis
    unfolding t' list_all_iff using set_update_subset_insert by fastforce
qed


text \<open>
  The bucket of the example is the outcome of twenty calls of \<open>insert\<close> on an empty
  bucket. All its members were last seen long before the expiry, none has a pending
  count, and the new id goes to the promotion cache; with that id already in the
  cache, the cached node is refreshed.
\<close>

lemma full_bucket_reached:
  "fold (\<lambda>i r. case r of Inl e \<Rightarrow> Inl e
                 | Inr b \<Rightarrow> map_sum id snd (bucket_insert b (replicate 32 (of_nat i)) None 0 False 1000))
     [1 ..< 21]
     (Inr \<lparr>b_size = 0, expiry = 60 * 1000 * Millisecond, b_nodes = replicate 20 None, cache = []\<rparr>) =
   Inr (full_bucket 0 1000)"
  by code_simp



section \<open>Properties of the in-memory storage\<close>

text \<open>
  What a round of \<open>cleanup\<close> does to a key: it deletes the key when one of its
  values has not expired yet, and keeps it, with all its values, when all of them have
  expired.
\<close>

lemma storage_cleanup_deletes_unexpired:
  "store s ky = Some it \<Longrightarrow> v \<in> set (i_values it) \<Longrightarrow> now < expires v \<Longrightarrow>
   store (storage_cleanup s now) ky = None"
  by (auto simp: storage_cleanup_def list_ex_iff)

lemma storage_cleanup_keeps_expired:
  "store s ky = Some it \<Longrightarrow> \<forall>v \<in> set (i_values it). expires v \<le> now \<Longrightarrow>
   store (storage_cleanup s now) ky = Some it"
  by (auto simp: storage_cleanup_def list_ex_iff)

text \<open>
  What \<open>Get\<close> computes for a non-zero \<open>from\<close>: it drops as many leading values as
  there are values created before \<open>from\<close>. That is the values created at or after
  \<open>from\<close> when the slice is ordered by creation time.
\<close>

lemma count_before_filter:
  "count_before vs from index = index + int (length (filter (\<lambda>v. Created v < from) vs))"
  by (induction vs arbitrary: index) auto

lemma drop_earlier_sorted:
  "sorted (map Created vs) \<Longrightarrow>
   drop (length (filter (\<lambda>v. Created v < from) vs)) vs = filter (\<lambda>v. from \<le> Created v) vs"
proof (induction vs)
  case Nil
  then show ?case by simp
next
  case (Cons v vs)
  show ?case
  proof (cases "Created v < from")
    case True
    with Cons show ?thesis by simp
  next
    case False
    with Cons.prems have "\<forall>w \<in> set vs. from \<le> Created w" by auto
    then have "filter (\<lambda>v. Created v < from) vs = [] \<and> filter (\<lambda>v. from \<le> Created v) vs = vs"
      by (auto simp: filter_empty_conv filter_id_conv)
    with False show ?thesis by simp
  qed
qed

lemma storage_Get_sorted:
  assumes "store s (s_hasher s k) = Some it" "from \<noteq> 0" "sorted (map Created (i_values it))"
  shows "fst (storage_Get s k from) = filter (\<lambda>v. from \<le> Created v) (i_values it)"
proof -
  let ?n = "length (filter (\<lambda>v. Created v < from) (i_values it))"
  have eq: "drop ?n (i_values it) = filter (\<lambda>v. from \<le> Created v) (i_values it)"
    using assms(3) by (rule drop_earlier_sorted)
  show ?thesis
  proof (cases "?n \<ge> length (i_values it)")
    case True
    then have "drop ?n (i_values it) = []" by simp
    with eq True assms show ?thesis
      by (simp add: storage_Get_def count_before_filter Let_def)
  next
    case False
    with eq assms show ?thesis
      by (simp add: storage_Get_def count_before_filter Let_def)
  qed
qed

text \<open>
  C1, evaluated on the code. A value is stored at time 100 with a time-to-live of one
  hour and is returned by \<open>Get\<close>; the sweep one minute later deletes its key, because
  the value has not expired, and \<open>Get\<close> returns nothing although the time is within
  the time-to-live. A value stored with a time-to-live of one second survives the
  sweeps one and two minutes later and is still returned after its expiry.
\<close>

theorem storage_cleanup_inverted:
  "storage_Get (stored [1, 2, 3] 100 Hour) key1 0 =
     ([\<lparr>Key = key1, Val = [1, 2, 3], TTL = Hour, Created = 100, expires = 100 + Hour\<rparr>], True) \<and>
   storage_Get (storage_cleanup (stored [1, 2, 3] 100 Hour) (100 + Minute)) key1 0 = ([], False) \<and>
   storage_Get (storage_cleanup (storage_cleanup (stored [1, 2, 3] 100 Second) (100 + Minute))
                  (100 + 2 * Minute)) key1 0 =
     ([\<lparr>Key = key1, Val = [1, 2, 3], TTL = Second, Created = 100, expires = 100 + Second\<rparr>], True)"
  by code_simp

text \<open>
  C6, evaluated on the code. The key holds a value created at 10 and then a value
  created at 5. \<open>Get\<close> with \<open>from = 7\<close> counts one value before 7 and drops the first
  element of the slice: it returns the value created at 5 and not the one created
  at 10.
\<close>

theorem storage_Get_out_of_order:
  "storage_Get stored_out_of_order key1 0 =
     ([\<lparr>Key = key1, Val = [1], TTL = Hour, Created = 10, expires = 10 + Hour\<rparr>,
       \<lparr>Key = key1, Val = [2], TTL = Hour, Created = 5, expires = 11 + Hour\<rparr>], True) \<and>
   storage_Get stored_out_of_order key1 7 =
     ([\<lparr>Key = key1, Val = [2], TTL = Hour, Created = 5, expires = 11 + Hour\<rparr>], True)"
  by code_simp

section \<open>Properties of the journey\<close>

lemma replace_scan_none:
  "\<forall>i \<in> set ixs. i < length (distances j) \<and> \<not> distances j ! i < d \<Longrightarrow>
   replace_scan j n d ixs = Inr j"
  by (induction ixs) auto

lemma replace_scan_first:
  "\<forall>i \<in> set pre. i < length (distances j) \<and> \<not> distances j ! i < d \<Longrightarrow>
   i0 < length (distances j) \<Longrightarrow> distances j ! i0 < d \<Longrightarrow>
   i0 < length (j_nodes j) \<Longrightarrow> j_nodes j ! i0 = Some old \<Longrightarrow>
   replace_scan j n d (pre @ i0 # post) =
     Inr (j\<lparr>visited := visited j - {hasher j (node_id old)},
            j_nodes := (j_nodes j)[i0 := Some n],
            distances := (distances j)[i0 := d]\<rparr>)"
  by (induction pre) auto

text \<open>
  C4 as amended. For a node \<open>n\<close> that is not the source and is not marked visited,
  at the distance \<open>d\<close> from the destination: if the list holds fewer than \<open>K\<close> routes,
  \<open>n\<close> is marked visited and appended; if the list is full, \<open>n\<close> is marked visited
  and replaces the first entry, in slice order, whose distance is strictly smaller than
  \<open>d\<close>, and the mark of the replaced node is deleted; if no entry has a smaller
  distance, \<open>n\<close> is only marked visited.
\<close>

theorem add_node_first_worse:
  assumes "node_id n \<noteq> source j" and "hasher j (node_id n) \<notin> visited j"
    and "distance (node_id n) (destination j) = Inr d"
  shows "(0 \<le> routes j \<and> routes j < K \<and> routes j < int (length (j_nodes j)) \<and>
          routes j < int (length (distances j)) \<longrightarrow>
            add_node j (Some n) =
              Inr (j\<lparr>visited := insert (hasher j (node_id n)) (visited j),
                     j_nodes := (j_nodes j)[nat (routes j) := Some n],
                     distances := (distances j)[nat (routes j) := d],
                     routes := routes j + 1\<rparr>)) \<and>
         (K \<le> routes j \<and> 20 \<le> length (j_nodes j) \<and> 20 \<le> length (distances j) \<longrightarrow>
            (\<forall>i old. i < 20 \<and> distances j ! i < d \<and> (\<forall>i' < i. \<not> distances j ! i' < d) \<and>
                j_nodes j ! i = Some old \<longrightarrow>
                add_node j (Some n) =
                  Inr (j\<lparr>visited := insert (hasher j (node_id n)) (visited j) - {hasher j (node_id old)},
                         j_nodes := (j_nodes j)[i := Some n],
                         distances := (distances j)[i := d]\<rparr>)) \<and>
            ((\<forall>i < 20. \<not> distances j ! i < d) \<longrightarrow>
                add_node j (Some n) =
                  Inr (j\<lparr>visited := insert (hasher j (node_id n)) (visited j)\<rparr>)))"
proof (intro conjI impI allI)
  assume "0 \<le> routes j \<and> routes j < K \<and> routes j < int (length (j_nodes j)) \<and>
          routes j < int (length (distances j))"
  then show "add_node j (Some n) =
              Inr (j\<lparr>visited := insert (hasher j (node_id n)) (visited j),
                     j_nodes := (j_nodes j)[nat (routes j) := Some n],
                     distances := (distances j)[nat (routes j) := d],
                     routes := routes j + 1\<rparr>)"
    using assms by (simp add: add_node_def Let_def store_at_def)
next
  fix i old
  let ?j1 = "j\<lparr>visited := insert (hasher j (node_id n)) (visited j)\<rparr>"
  assume full: "K \<le> routes j \<and> 20 \<le> length (j_nodes j) \<and> 20 \<le> length (distances j)"
    and i: "i < 20 \<and> distances j ! i < d \<and> (\<forall>i' < i. \<not> distances j ! i' < d) \<and>
            j_nodes j ! i = Some old"
  have "[0 ..< 20] = [0 ..< i] @ [i ..< 20]"
    using i upt_add_eq_append [of 0 i "20 - i"] by simp
  moreover have "[i ..< 20] = i # [Suc i ..< 20]"
    using i by (simp add: upt_conv_Cons)
  ultimately have split: "[0 ..< nat K] = [0 ..< i] @ i # [Suc i ..< 20]"
    by (simp add: K_def)
  have "replace_scan ?j1 n d ([0 ..< i] @ i # [Suc i ..< 20]) =
          Inr (?j1\<lparr>visited := visited ?j1 - {hasher ?j1 (node_id old)},
                   j_nodes := (j_nodes ?j1)[i := Some n],
                   distances := (distances ?j1)[i := d]\<rparr>)"
    using full i by (intro replace_scan_first) auto
  then show "add_node j (Some n) =
                  Inr (j\<lparr>visited := insert (hasher j (node_id n)) (visited j) - {hasher j (node_id old)},
                         j_nodes := (j_nodes j)[i := Some n],
                         distances := (distances j)[i := d]\<rparr>)"
    using assms full split by (simp add: add_node_def Let_def)
next
  let ?j1 = "j\<lparr>visited := insert (hasher j (node_id n)) (visited j)\<rparr>"
  assume full: "K \<le> routes j \<and> 20 \<le> length (j_nodes j) \<and> 20 \<le> length (distances j)"
    and none: "\<forall>i < 20. \<not> distances j ! i < d"
  have "replace_scan ?j1 n d [0 ..< nat K] = Inr ?j1"
    using full none by (intro replace_scan_none) (auto simp: K_def)
  then show "add_node j (Some n) = Inr (j\<lparr>visited := insert (hasher j (node_id n)) (visited j)\<rparr>)"
    using assms full by (simp add: add_node_def Let_def)
qed


theorem add_node_first_worse_witness:
  "(node_id (route_node 4 0) \<noteq> source new_journey \<and>
    hasher new_journey (node_id (route_node 4 0)) \<notin> visited new_journey \<and>
    distance (node_id (route_node 4 0)) (destination new_journey) = Inr 5 \<and>
    0 \<le> routes new_journey \<and> routes new_journey < K \<and>
    add_node new_journey (Some (route_node 4 0)) =
      Inr (new_journey\<lparr>visited := insert (hasher new_journey (node_id (route_node 4 0))) (visited new_journey),
             j_nodes := (j_nodes new_journey)[0 := Some (route_node 4 0)],
             distances := (distances new_journey)[0 := 5],
             routes := 1\<rparr>)) \<and>
   (node_id (route_node 2 77) \<noteq> source full_journey \<and>
    hasher full_journey (node_id (route_node 2 77)) \<notin> visited full_journey \<and>
    distance (node_id (route_node 2 77)) (destination full_journey) = Inr 6 \<and>
    K \<le> routes full_journey \<and> distances full_journey ! 0 < 6 \<and>
    j_nodes full_journey ! 0 = Some (route_node 4 0) \<and>
    add_node full_journey (Some (route_node 2 77)) =
      Inr (full_journey\<lparr>visited := insert (hasher full_journey (node_id (route_node 2 77))) (visited full_journey)
                             - {hasher full_journey (node_id (route_node 4 0))},
             j_nodes := (j_nodes full_journey)[0 := Some (route_node 2 77)],
             distances := (distances full_journey)[0 := 6]\<rparr>)) \<and>
   (node_id (route_node 16 77) \<noteq> source full_journey \<and>
    hasher full_journey (node_id (route_node 16 77)) \<notin> visited full_journey \<and>
    distance (node_id (route_node 16 77)) (destination full_journey) = Inr 3 \<and>
    distances full_journey = 5 # 3 # replicate 18 7 \<and>
    add_node full_journey (Some (route_node 16 77)) =
      Inr (full_journey\<lparr>visited := insert (hasher full_journey (node_id (route_node 16 77))) (visited full_journey)\<rparr>))"
proof -
  have a1: "node_id (route_node 4 0) \<noteq> source new_journey"
    and a2: "hasher new_journey (node_id (route_node 4 0)) \<notin> visited new_journey"
    and a3: "distance (node_id (route_node 4 0)) (destination new_journey) = Inr 5"
    and a4: "0 \<le> routes new_journey \<and> routes new_journey < K \<and>
             routes new_journey < int (length (j_nodes new_journey)) \<and>
             routes new_journey < int (length (distances new_journey))"
    and a5: "routes new_journey = 0"
    by code_simp+
  have b1: "node_id (route_node 2 77) \<noteq> source full_journey"
    and b2: "hasher full_journey (node_id (route_node 2 77)) \<notin> visited full_journey"
    and b3: "distance (node_id (route_node 2 77)) (destination full_journey) = Inr 6"
    and b4: "K \<le> routes full_journey \<and> 20 \<le> length (j_nodes full_journey) \<and>
             20 \<le> length (distances full_journey)"
    and b5: "distances full_journey ! 0 < 6"
    and b6: "j_nodes full_journey ! 0 = Some (route_node 4 0)"
    by code_simp+
  have c1: "node_id (route_node 16 77) \<noteq> source full_journey"
    and c2: "hasher full_journey (node_id (route_node 16 77)) \<notin> visited full_journey"
    and c3: "distance (node_id (route_node 16 77)) (destination full_journey) = Inr 3"
    and c4: "distances full_journey = 5 # 3 # replicate 18 7"
    by code_simp+
  have c5: "\<forall>i < 20. \<not> distances full_journey ! i < 3"
    unfolding c4 by (simp add: nth_Cons split: nat.splits)
  have b7: "0 < (20 :: nat) \<and> distances full_journey ! 0 < 6 \<and>
            (\<forall>i' < (0 :: nat). \<not> distances full_journey ! i' < 6) \<and>
            j_nodes full_journey ! 0 = Some (route_node 4 0)"
    using b5 b6 by simp
  from add_node_first_worse [OF a1 a2 a3] a4 a5
  have A: "add_node new_journey (Some (route_node 4 0)) =
      Inr (new_journey\<lparr>visited := insert (hasher new_journey (node_id (route_node 4 0))) (visited new_journey),
             j_nodes := (j_nodes new_journey)[0 := Some (route_node 4 0)],
             distances := (distances new_journey)[0 := 5],
             routes := 1\<rparr>)"
    by simp
  from add_node_first_worse [OF b1 b2 b3] b4 b7
  have B: "add_node full_journey (Some (route_node 2 77)) =
      Inr (full_journey\<lparr>visited := insert (hasher full_journey (node_id (route_node 2 77))) (visited full_journey)
                             - {hasher full_journey (node_id (route_node 4 0))},
             j_nodes := (j_nodes full_journey)[0 := Some (route_node 2 77)],
             distances := (distances full_journey)[0 := 6]\<rparr>)"
    by blast
  from add_node_first_worse [OF c1 c2 c3] b4 c5
  have C: "add_node full_journey (Some (route_node 16 77)) =
      Inr (full_journey\<lparr>visited := insert (hasher full_journey (node_id (route_node 16 77))) (visited full_journey)\<rparr>)"
    by blast
  show ?thesis
    using a1 a2 a3 a4 b1 b2 b3 b4 b5 b6 c1 c2 c3 c4 A B C by blast
qed

text \<open>
  C4 as stated fails. The list of \<open>full_journey\<close> is full, with the distances
  5, 3, 7, ..., 7: its worst-ranked entry is the one at distance 3, at index 1. The
  node \<open>route_node 2 77\<close> is not the source, is not marked visited and is at distance
  6. \<open>add\<close> puts it at index 0, in place of the entry at distance 5; the entry at
  distance 3 stays.
\<close>

theorem add_node_replaces_first_not_worst:
  "routes full_journey = K \<and>
   distances full_journey = 5 # 3 # replicate 18 7 \<and>
   node_id (route_node 2 77) \<noteq> source full_journey \<and>
   hasher full_journey (node_id (route_node 2 77)) \<notin> visited full_journey \<and>
   distance (node_id (route_node 2 77)) (destination full_journey) = Inr 6 \<and>
   map_sum id distances (add_node full_journey (Some (route_node 2 77))) =
     Inr (6 # 3 # replicate 18 7) \<and>
   map_sum id (take 2 \<circ> j_nodes) (add_node full_journey (Some (route_node 2 77))) =
     Inr [Some (route_node 2 77), Some (route_node 16 1)]"
  by code_simp

text \<open>
  The state \<open>full_journey\<close> of the examples is the one that \<open>add\<close> of the 20 nodes
  produces from a new journey.
\<close>

lemma full_journey_reached:
  "map_sum id (\<lambda>j. (visited j, j_nodes j, distances j, routes j, remaining j, inflight j,
                     completed j, source j, destination j))
     (journey_add new_journey frontier20) =
   Inr (visited full_journey, j_nodes full_journey, distances full_journey, routes full_journey,
        remaining full_journey, inflight full_journey, completed full_journey,
        source full_journey, destination full_journey)"
  by code_simp

text \<open>The invariant is kept by \<open>add\<close>.\<close>

lemma replace_scan_cases:
  "replace_scan j n d ixs = Inr j' \<Longrightarrow>
   j' = j \<or>
   (\<exists>i old. i \<in> set ixs \<and> i < length (j_nodes j) \<and> j_nodes j ! i = Some old \<and>
      j' = j\<lparr>visited := visited j - {hasher j (node_id old)},
             j_nodes := (j_nodes j)[i := Some n],
             distances := (distances j)[i := d]\<rparr>)"
proof (induction ixs)
  case Nil
  then show ?case by simp
next
  case (Cons i ixs)
  show ?case
  proof (cases "i < length (distances j) \<and> distances j ! i < d")
    case True
    with Cons.prems show ?thesis
      by (auto split: if_splits option.splits)
  next
    case False
    with Cons.prems have "replace_scan j n d ixs = Inr j'"
      by (auto split: if_splits)
    with Cons.IH show ?thesis by auto
  qed
qed

lemma inv_append:
  assumes inv: "journey_inv j ret"
    and k: "hasher j (node_id n) \<notin> visited j"
    and r: "0 \<le> routes j" "routes j < int (length (j_nodes j))"
  shows "journey_inv (j\<lparr>visited := insert (hasher j (node_id n)) (visited j),
                        j_nodes := (j_nodes j)[nat (routes j) := Some n],
                        distances := ds, routes := routes j + 1\<rparr>) ret"
proof -
  let ?h = "entry_hash (hasher j)"
  have lv: "take (nat (routes j + 1)) ((j_nodes j)[nat (routes j) := Some n]) = live j @ [Some n]"
    using r by (simp add: live_def nat_add_distrib take_Suc_conv_app_nth)
  have notin: "Some (hasher j (node_id n)) \<notin> set (map ?h (live j @ ret))"
    using inv k by (auto simp: journey_inv_def)
  have hn: "?h (Some n) = Some (hasher j (node_id n))"
    by (simp add: entry_hash_def)
  show ?thesis
    using inv notin r unfolding journey_inv_def live_def [of "j\<lparr>visited := _, j_nodes := _, distances := _, routes := _\<rparr>"]
    by (simp add: lv hn) (auto simp: hn)
qed

lemma inv_replace:
  assumes inv: "journey_inv j ret"
    and k: "hasher j (node_id n) \<notin> visited j"
    and i: "i < length (j_nodes j)" "int i < routes j" "j_nodes j ! i = Some old"
  shows "journey_inv (j\<lparr>visited := insert (hasher j (node_id n)) (visited j) - {hasher j (node_id old)},
                        j_nodes := (j_nodes j)[i := Some n],
                        distances := ds\<rparr>) ret"
proof -
  let ?h = "entry_hash (hasher j)"
  let ?L = "map ?h (live j @ ret)"
  let ?k = "hasher j (node_id n)"
  have il: "i < length (live j)"
    using i by (simp add: live_def)
  have lv: "take (nat (routes j)) ((j_nodes j)[i := Some n]) = (live j)[i := Some n]"
    by (simp add: live_def take_update_swap)
  have L': "map ?h ((live j)[i := Some n] @ ret) = ?L[i := Some ?k]"
    using il by (simp add: map_update list_update_append1 entry_hash_def)
  have dist: "distinct ?L" and sub: "set ?L \<subseteq> Some ` visited j"
    using inv by (auto simp: journey_inv_def)
  have iL: "i < length ?L" using il by simp
  have Li: "?L ! i = Some (hasher j (node_id old))"
    using il i by (simp add: nth_append live_def entry_hash_def)
  have notin: "Some ?k \<notin> set ?L"
    using sub k by auto
  have d': "distinct (?L[i := Some ?k])"
    using dist notin by (simp add: distinct_list_update)
  have "?L ! i \<in> set ?L"
    using iL by (rule nth_mem)
  then have "hasher j (node_id old) \<in> visited j"
    using sub unfolding Li by auto
  then have ne: "?k \<noteq> hasher j (node_id old)"
    using k by auto
  have "set (?L[i := Some ?k]) = insert (Some ?k) (set ?L - {?L ! i})"
    using dist iL by (rule set_update_distinct)
  then have "set (?L[i := Some ?k]) = insert (Some ?k) (set ?L - {Some (hasher j (node_id old))})"
    unfolding Li .
  moreover have "insert (Some ?k) (set ?L - {Some (hasher j (node_id old))})
      \<subseteq> Some ` (insert ?k (visited j) - {hasher j (node_id old)})"
    using sub ne by auto
  ultimately have s': "set (?L[i := Some ?k]) \<subseteq> Some ` (insert ?k (visited j) - {hasher j (node_id old)})"
    by simp
  have d'': "distinct (map ?h ((live j)[i := Some n] @ ret))"
    unfolding L' by (rule d')
  have s'': "set (map ?h ((live j)[i := Some n] @ ret))
      \<subseteq> Some ` (insert ?k (visited j) - {hasher j (node_id old)})"
    unfolding L' by (rule s')
  have "routes j \<le> int (length (j_nodes j))"
    using inv by (simp add: journey_inv_def)
  with d'' s'' show ?thesis
    unfolding journey_inv_def live_def [of "j\<lparr>visited := _, j_nodes := _, distances := _\<rparr>"]
    by (simp add: lv)
qed

lemma inv_mark:
  "journey_inv j ret \<Longrightarrow> journey_inv (j\<lparr>visited := insert k (visited j)\<rparr>) ret"
  by (auto simp: journey_inv_def live_def)

lemma add_node_inv:
  assumes "add_node j e = Inr j'" and inv: "journey_inv j ret"
  shows "journey_inv j' ret \<and> hasher j' = hasher j"
proof (cases e)
  case None
  with assms show ?thesis by (simp add: add_node_def)
next
  case (Some n)
  let ?k = "hasher j (node_id n)"
  let ?j1 = "j\<lparr>visited := insert ?k (visited j)\<rparr>"
  show ?thesis
  proof (cases "node_id n = source j \<or> ?k \<in> visited j")
    case True
    with assms Some show ?thesis
      by (auto simp: add_node_def Let_def split: sum.splits if_splits)
  next
    case False
    then have k: "?k \<notin> visited j" and ns: "node_id n \<noteq> source j" by auto
    from assms(1) Some False obtain d where d: "distance (node_id n) (destination j) = Inr d"
      by (auto simp: add_node_def Let_def split: sum.splits)
    show ?thesis
    proof (cases "routes j < K")
      case True
      with assms(1) Some k ns d
      have r: "0 \<le> routes j" "routes j < int (length (j_nodes j))"
        and j': "j' = j\<lparr>visited := insert ?k (visited j),
                        j_nodes := (j_nodes j)[nat (routes j) := Some n],
                        distances := (distances j)[nat (routes j) := d], routes := routes j + 1\<rparr>"
        by (auto simp: add_node_def Let_def store_at_def split: sum.splits if_splits)
      show ?thesis
        unfolding j' using inv_append [OF inv k r] by simp
    next
      case False
      with assms(1) Some k ns d
      have rs: "replace_scan ?j1 n d [0 ..< nat K] = Inr j'"
        by (auto simp: add_node_def Let_def)
      from replace_scan_cases [OF rs] show ?thesis
      proof
        assume "j' = ?j1"
        then show ?thesis using inv_mark [OF inv] by simp
      next
        assume "\<exists>i old. i \<in> set [0 ..< nat K] \<and> i < length (j_nodes ?j1) \<and> j_nodes ?j1 ! i = Some old \<and>
          j' = ?j1\<lparr>visited := visited ?j1 - {hasher ?j1 (node_id old)},
             j_nodes := (j_nodes ?j1)[i := Some n],
             distances := (distances ?j1)[i := d]\<rparr>"
        then obtain i old where i: "i < nat K" "i < length (j_nodes j)" "j_nodes j ! i = Some old"
          and j': "j' = j\<lparr>visited := insert ?k (visited j) - {hasher j (node_id old)},
             j_nodes := (j_nodes j)[i := Some n],
             distances := (distances j)[i := d]\<rparr>"
          by auto
        have "int i < routes j" using i(1) False by simp
        from inv_replace [OF inv k i(2) this i(3)] show ?thesis
          unfolding j' by simp
      qed
    qed
  qed
qed

lemma journey_add_inv:
  "journey_add j ns = Inr j' \<Longrightarrow> journey_inv j ret \<Longrightarrow>
   journey_inv j' ret \<and> hasher j' = hasher j"
proof (induction ns arbitrary: j)
  case Nil
  then show ?case by simp
next
  case (Cons e ns)
  from Cons.prems(1) obtain j1 where j1: "add_node j e = Inr j1" "journey_add j1 ns = Inr j'"
    by (auto split: sum.splits)
  from add_node_inv [OF j1(1) Cons.prems(2)] Cons.IH [OF j1(2)] show ?case by simp
qed

text \<open>The invariant is kept by \<open>next\<close>, whatever permutation the sort produces.\<close>

lemma live_routes_eq:
  "length ns = length ds \<Longrightarrow> live_routes ns ds = Inr ps \<Longrightarrow>
   ns = map (Some \<circ> fst) ps \<and> ds = map snd ps"
proof (induction ns ds arbitrary: ps rule: list_induct2)
  case Nil
  then show ?case by simp
next
  case (Cons e ns d ds)
  then show ?case
    by (cases e) (auto split: sum.splits)
qed

lemma sort_journey_live:
  assumes perm: "\<forall>ps. mset (srt ps) = mset ps"
    and s: "sort_journey srt j = Inr j'"
    and r: "routes j \<le> int (length (j_nodes j))"
  shows "mset (live j') = mset (live j) \<and> routes j' = routes j \<and> hasher j' = hasher j \<and>
         visited j' = visited j \<and> length (j_nodes j') = length (j_nodes j)"
proof (cases "routes j < 2")
  case True
  with s show ?thesis by (simp add: sort_journey_def)
next
  case False
  let ?r = "nat (routes j)"
  from s False r obtain ps where ps: "live_routes (take ?r (j_nodes j)) (take ?r (distances j)) = Inr ps"
    and rd: "routes j \<le> int (length (distances j))"
    and j': "j' = j\<lparr>j_nodes := map (Some \<circ> fst) (srt ps) @ drop ?r (j_nodes j),
                    distances := map snd (srt ps) @ drop ?r (distances j)\<rparr>"
    by (auto simp: sort_journey_def Let_def split: if_splits sum.splits)
  have len: "length (take ?r (j_nodes j)) = length (take ?r (distances j))"
    using r rd by simp
  from live_routes_eq [OF len ps] have tk: "take ?r (j_nodes j) = map (Some \<circ> fst) ps"
    by simp
  have lps: "length ps = ?r"
    using tk r by (metis length_map length_take min.absorb2 nat_le_iff of_nat_le_iff nat_int)
  have lsrt: "length (srt ps) = ?r"
    using perm lps by (metis size_mset)
  have "live j' = map (Some \<circ> fst) (srt ps)"
    unfolding j' live_def using lsrt by simp
  moreover have "live j = map (Some \<circ> fst) ps"
    unfolding live_def using tk by simp
  ultimately have "mset (live j') = mset (live j)"
    using perm by simp
  moreover have "length (j_nodes j') = length (j_nodes j)"
    unfolding j' using lsrt r by simp
  ultimately show ?thesis unfolding j' by simp
qed


lemma journey_next_inv:
  assumes perm: "\<forall>ps. mset (srt ps) = mset ps"
    and nx: "journey_next srt j c = Inr (out, j')"
    and inv: "journey_inv j ret"
  shows "journey_inv j' (ret @ out) \<and> hasher j' = hasher j"
proof (cases "remaining j = 0 \<or> routes j = 0 \<or> completed j")
  case True
  with nx inv show ?thesis by (simp add: journey_next_def)
next
  case False
  define a where "a = (if routes j < c then routes j else c)"
  define j2 where "j2 = j\<lparr>remaining := remaining j - 1, inflight := inflight j + a\<rparr>"
  from nx False obtain j3 ns ds where j3: "sort_journey srt j2 = Inr j3"
    and a0: "0 \<le> a" and alen: "a \<le> int (length (j_nodes j3))"
    and ns: "copy_within (j_nodes j3) 0 a = Inr ns"
    and out: "out = take (nat a) (j_nodes j3)"
    and j': "j' = j3\<lparr>j_nodes := ns, distances := ds, routes := routes j3 - a\<rparr>"
    by (auto simp: journey_next_def Let_def a_def j2_def split: sum.splits if_splits)
  have r2: "routes j2 \<le> int (length (j_nodes j2))"
    using inv by (simp add: journey_inv_def j2_def)
  from sort_journey_live [OF perm j3 r2]
  have m3: "mset (live j3) = mset (live j)" and r3: "routes j3 = routes j"
    and h3: "hasher j3 = hasher j" and v3: "visited j3 = visited j"
    and l3: "length (j_nodes j3) = length (j_nodes j)"
    by (auto simp: j2_def live_def)
  have ar: "a \<le> routes j" by (simp add: a_def)
  have rl: "routes j \<le> int (length (j_nodes j3))"
    using inv l3 by (simp add: journey_inv_def)
  have ns_eq: "ns = drop (nat a) (j_nodes j3) @ drop (length (j_nodes j3) - nat a) (j_nodes j3)"
    using ns a0 alen by (simp add: copy_within_def Let_def)
  have live': "live j' = drop (nat a) (live j3)"
    unfolding j' live_def using a0 ar rl r3
    by (simp add: ns_eq drop_take nat_diff_distrib)
  have out': "out = take (nat a) (live j3)"
    unfolding out live_def using a0 ar r3 by (simp add: min_def)
  have "mset (live j' @ ret @ out) = mset (live j3 @ ret)"
    unfolding live' out'
    by (metis append_take_drop_id mset_append add.commute add.assoc union_code)
  then have ms: "mset (live j' @ ret @ out) = mset (live j @ ret)"
    using m3 by simp
  let ?h = "entry_hash (hasher j)"
  have msh: "mset (map ?h (live j' @ ret @ out)) = mset (map ?h (live j @ ret))"
    using ms by (metis mset_map)
  have d: "distinct (map ?h (live j' @ ret @ out))"
    using inv mset_eq_imp_distinct_iff [OF msh] by (simp add: journey_inv_def)
  have s: "set (map ?h (live j' @ ret @ out)) \<subseteq> Some ` visited j"
    using inv mset_eq_setD [OF msh] by (simp add: journey_inv_def)
  have len': "length (j_nodes j') = length (j_nodes j3)"
    unfolding j' using a0 alen by (simp add: ns_eq)
  have "routes j' \<le> int (length (j_nodes j'))"
    unfolding len' using rl a0 r3 by (simp add: j')
  moreover have "hasher j' = hasher j" "visited j' = visited j"
    using h3 v3 by (simp_all add: j')
  ultimately show ?thesis
    using d s unfolding journey_inv_def by simp
qed

text \<open>The entries returned along a run.\<close>

lemma inv_returned:
  assumes "journey_inv j ret"
  shows "distinct (map (entry_hash (hasher j)) ret) \<and> None \<notin> set ret"
proof
  show "distinct (map (entry_hash (hasher j)) ret)"
    using assms by (simp add: journey_inv_def)
  show "None \<notin> set ret"
  proof
    assume "None \<in> set ret"
    then have "entry_hash (hasher j) None \<in> set (map (entry_hash (hasher j)) (live j @ ret))"
      by simp
    then have "entry_hash (hasher j) None \<in> Some ` visited j"
      using assms unfolding journey_inv_def by blast
    then show False by (simp add: entry_hash_def)
  qed
qed

lemma run_distinct:
  "journey_inv j ret \<Longrightarrow> \<forall>ps. mset (srt ps) = mset ps \<Longrightarrow>
   distinct (map (entry_hash (hasher j)) (ret @ run srt j calls)) \<and>
   None \<notin> set (ret @ run srt j calls)"
proof (induction calls arbitrary: j ret)
  case Nil
  then show ?case
    using inv_returned by simp
next
  case (Cons c calls)
  have base: "distinct (map (entry_hash (hasher j)) ret) \<and> None \<notin> set ret"
    using Cons.prems(1) by (rule inv_returned)
  show ?case
  proof (cases c)
    case (Add ns)
    show ?thesis
    proof (cases "journey_add j ns")
      case (Inl e)
      with Add base show ?thesis by simp
    next
      case (Inr j')
      from journey_add_inv [OF Inr Cons.prems(1)]
      have "journey_inv j' ret" and h: "hasher j' = hasher j" by simp_all
      from Cons.IH [OF this(1) Cons.prems(2)] h Add Inr show ?thesis by simp
    qed
  next
    case (Next n)
    show ?thesis
    proof (cases "journey_next srt j n")
      case (Inl e)
      with Next base show ?thesis by simp
    next
      case (Inr res)
      obtain out j' where res: "res = (out, j')" by (cases res)
      from journey_next_inv [OF Cons.prems(2) Inr [unfolded res] Cons.prems(1)]
      have "journey_inv j' (ret @ out)" and h: "hasher j' = hasher j" by simp_all
      from Cons.IH [OF this(1) Cons.prems(2)] h Next Inr res show ?thesis by simp
    qed
  qed
qed

lemma mset_insert_route: "mset (insert_route x ys) = add_mset x (mset ys)"
  by (induction ys) auto

lemma mset_sort_routes: "mset (sort_routes ps) = mset ps"
  by (induction ps) (auto simp: sort_routes_def mset_insert_route)

text \<open>
  C5. For a new journey and every sequence of calls of \<open>add\<close> and \<open>next\<close>, whatever
  order the sort gives to equal routes, the entries returned by all the \<open>next\<close> calls
  together are nodes with pairwise different ids: no id is returned twice.
\<close>

theorem next_never_returns_an_id_twice:
  assumes "\<forall>ps. mset (srt ps) = mset ps"
  shows "distinct (map (map_option node_id) (run srt (newJourney h src dst iterations) calls)) \<and>
         None \<notin> set (run srt (newJourney h src dst iterations) calls)"
proof -
  let ?j = "newJourney h src dst iterations"
  let ?out = "run srt ?j calls"
  have "journey_inv ?j []"
    by (simp add: journey_inv_def live_def newJourney_def)
  from run_distinct [OF this assms, of calls]
  have d: "distinct (map (entry_hash h) ?out)" and n: "None \<notin> set ?out"
    by (simp_all add: newJourney_def)
  have "map (entry_hash h) ?out = map (map_option h) (map (map_option node_id) ?out)"
    by (simp add: entry_hash_def option.map_comp comp_def)
  with d have "distinct (map (map_option h) (map (map_option node_id) ?out))"
    by simp
  then have "distinct (map (map_option node_id) ?out)"
    unfolding distinct_map [of "map_option h"] by (rule conjunct1)
  with n show ?thesis by simp
qed


theorem next_never_returns_an_id_twice_witness:
  "(\<forall>ps. mset (sort_routes ps) = mset ps) \<and>
   map (map_option (\<lambda>n. (hd (node_id n), last (node_id n))))
     (run sort_routes new_journey example_calls) =
     map (\<lambda>i. Some (1, of_nat i)) [2 ..< 20] @ [Some (2, 77), Some (4, 0), Some (16, 1)] \<and>
   distinct (map (map_option node_id) (run sort_routes new_journey example_calls)) \<and>
   None \<notin> set (run sort_routes new_journey example_calls)"
proof -
  have perm: "\<forall>ps. mset (sort_routes ps) = mset ps"
    by (simp add: mset_sort_routes)
  have ev: "map (map_option (\<lambda>n. (hd (node_id n), last (node_id n))))
     (run sort_routes new_journey example_calls) =
     map (\<lambda>i. Some (1, of_nat i)) [2 ..< 20] @ [Some (2, 77), Some (4, 0), Some (16, 1)]"
    by code_simp
  from next_never_returns_an_id_twice [OF perm, of example_hash id_fresh id_a 20 example_calls]
  have "distinct (map (map_option node_id) (run sort_routes new_journey example_calls)) \<and>
        None \<notin> set (run sort_routes new_journey example_calls)"
    by (simp add: new_journey_def)
  with perm ev show ?thesis by simp
qed

section \<open>Properties of closestN and GetBestRoutes\<close>

lemma scan_inv_step:
  assumes "0 \<le> start" "start < 256" "scan_inv start offset i scanned"
    and "scanned' = (if offset > -1 \<and> offset < 256 then scanned + 1 else scanned)"
    and "scanned' < 256"
  shows "scan_inv start (if i mod 2 = 0 then offset + i + 1 else offset - i - 1) (i + 1) scanned' \<and>
         0 \<le> i \<and> i < 512"
proof -
  from assms(3) obtain m where m: "0 \<le> m"
    and c: "(i = 2 * m \<and> offset = start - m \<and> scanned = min m (start + 1) + min m (255 - start)) \<or>
            (i = 2 * m + 1 \<and> offset = start + m + 1 \<and>
             scanned = min (m + 1) (start + 1) + min m (255 - start))"
    by (auto simp: scan_inv_def)
  from c show ?thesis
  proof
    assume e: "i = 2 * m \<and> offset = start - m \<and> scanned = min m (start + 1) + min m (255 - start)"
    then have "i mod 2 = 0" by simp
    moreover have "i + 1 = 2 * m + 1 \<and> offset + i + 1 = start + m + 1 \<and>
        scanned' = min (m + 1) (start + 1) + min m (255 - start)"
      using e assms(1,2,4) m by (auto simp: min_def)
    moreover have "i < 512"
      using e assms(1,2,4,5) m by (auto simp: min_def split: if_splits)
    ultimately show ?thesis
      using m e unfolding scan_inv_def by (intro conjI exI [of _ m]) auto
  next
    assume e: "i = 2 * m + 1 \<and> offset = start + m + 1 \<and>
             scanned = min (m + 1) (start + 1) + min m (255 - start)"
    then have "i mod 2 \<noteq> 0" by presburger
    moreover have "i + 1 = 2 * (m + 1) \<and> offset - i - 1 = start - (m + 1) \<and>
        scanned' = min (m + 1) (start + 1) + min (m + 1) (255 - start)"
      using e assms(1,2,4) m by (auto simp: min_def)
    moreover have "i < 512"
      using e assms(1,2,4,5) m by (auto simp: min_def split: if_splits)
    ultimately show ?thesis
      using m e unfolding scan_inv_def by (intro conjI exI [of _ "m + 1"]) auto
  qed
qed

text \<open>
  The scanning loop ends: started at a bucket \<open>start\<close> in \<open>0 .. 255\<close> it visits
  \<open>start, start + 1, start - 1, start + 2, ...\<close>, and the 256th offset that lies in
  range is reached within 512 iterations.
\<close>

lemma closestN_loop_terminates:
  assumes st: "0 \<le> start" "start < 256"
  shows "scan_inv start offset i scanned \<Longrightarrow>
         \<exists>r. closestN_loop t cnt offset i scanned nodes = Some r"
proof (induction "nat (512 - i)" arbitrary: offset i scanned nodes rule: less_induct)
  case less
  let ?next = "if i mod 2 = 0 then offset + i + 1 else offset - i - 1"
  have step: "\<exists>r. closestN_loop t cnt ?next (i + 1) scanned' nodes' = Some r"
    if "scanned' = (if offset > -1 \<and> offset < 256 then scanned + 1 else scanned)"
      and "scanned' < 256" for scanned' nodes'
  proof -
    from scan_inv_step [OF st less.prems that]
    have inv': "scan_inv start ?next (i + 1) scanned'" and i: "0 \<le> i" "i < 512"
      by simp_all
    from i have "nat (512 - (i + 1)) < nat (512 - i)" by simp
    from less.hyps [OF this inv'] show ?thesis .
  qed
  show ?case
  proof (cases "offset > -1 \<and> offset < KEY_BITS")
    case inr: True
    show ?thesis
    proof (cases "offset < int (length (buckets t))")
      case False
      with inr show ?thesis
        by (subst closestN_loop.simps) simp
    next
      case True
      show ?thesis
      proof (cases "bucket_iterate (buckets t ! nat offset)")
        case (Inl e)
        with inr True show ?thesis
          by (subst closestN_loop.simps) simp
      next
        case (Inr vs)
        show ?thesis
        proof (cases "int (length (nodes @ vs)) \<ge> cnt \<or> scanned + 1 \<ge> KEY_BITS")
          case True
          with inr \<open>offset < int (length (buckets t))\<close> Inr show ?thesis
            by (subst closestN_loop.simps) auto
        next
          case False
          then have "scanned + 1 < 256" by (simp add: KEY_BITS_def)
          with inr have "\<exists>r. closestN_loop t cnt ?next (i + 1) (scanned + 1) (nodes @ vs) = Some r"
            by (intro step) (simp_all add: KEY_BITS_def)
          with inr \<open>offset < int (length (buckets t))\<close> Inr False show ?thesis
            by (subst closestN_loop.simps) auto
        qed
      qed
    qed
  next
    case out: False
    show ?thesis
    proof (cases "scanned \<ge> KEY_BITS")
      case True
      with out show ?thesis
        by (subst closestN_loop.simps) auto
    next
      case False
      then have "scanned < 256" by (simp add: KEY_BITS_def)
      with out have "\<exists>r. closestN_loop t cnt ?next (i + 1) scanned nodes = Some r"
        by (intro step) (auto simp: KEY_BITS_def)
      with out False show ?thesis
        by (subst closestN_loop.simps) auto
    qed
  qed
qed

lemma distance_loop_range:
  "distance_loop i a b p = Inr r \<Longrightarrow> i \<le> 32 \<Longrightarrow> p \<le> r \<and> r \<le> p + 8 * (32 - int i)"
proof (induction i a b p rule: distance_loop.induct)
  case (1 i a b p)
  show ?case
  proof (cases "int i < KEY_BYTES")
    case False
    with "1.prems" show ?thesis
      by (subst (asm) distance_loop.simps) (auto simp: KEY_BYTES_def KEY_BITS_def)
  next
    case lt: True
    from "1.prems"(1) lt have len: "i < length a \<and> i < length b"
      by (subst (asm) distance_loop.simps) (auto split: if_splits)
    show ?thesis
    proof (cases "(a ! i) XOR (b ! i) = 0")
      case True
      with "1.prems"(1) lt len have "distance_loop (Suc i) a b (p + 8) = Inr r"
        by (subst (asm) distance_loop.simps) simp
      moreover have "Suc i \<le> 32" using lt by (simp add: KEY_BYTES_def KEY_BITS_def)
      ultimately have "p + 8 \<le> r \<and> r \<le> p + 8 + 8 * (32 - int (Suc i))"
        using "1.IH" [OF lt len refl True] by simp
      then show ?thesis by simp
    next
      case False
      with "1.prems"(1) lt len have "r = p + LeadingZeros8 ((a ! i) XOR (b ! i))"
        by (subst (asm) distance_loop.simps) simp
      with LeadingZeros8_range [OF False] lt show ?thesis
        by (simp add: KEY_BYTES_def KEY_BITS_def)
    qed
  qed
qed

lemma bucketID_range:
  assumes "bucketID a b = Inr off"
  shows "0 \<le> off \<and> off < 256"
proof -
  from assms obtain pfx where pfx: "distance a b = Inr pfx"
    and off: "off = (if KEY_BITS - pfx = 0 then 0 else KEY_BITS - pfx - 1)"
    by (auto simp: bucketID_def Let_def split: sum.splits if_splits)
  from distance_loop_range [of 0 a b 0 pfx] pfx have "0 \<le> pfx \<and> pfx \<le> 256"
    by (simp add: distance_def)
  with off show ?thesis by (auto simp: KEY_BITS_def)
qed

lemma closestN_terminates: "\<exists>r. closestN srt t ident cnt = Some r"
proof (cases "bucketID (node_id (localNode t)) ident")
  case (Inl e)
  then show ?thesis by (simp add: closestN_def)
next
  case (Inr off)
  from bucketID_range [OF Inr] have r: "0 \<le> off" "off < 256" by simp_all
  have "scan_inv off off 0 0"
    unfolding scan_inv_def using r by (intro exI [of _ 0]) simp
  from closestN_loop_terminates [OF r this, of t cnt "[]"]
  obtain res where "closestN_loop t cnt off 0 0 [] = Some res" by blast
  with Inr show ?thesis
    by (auto simp: closestN_def split: sum.splits)
qed

lemma measure_all_nth:
  "measure_all lr ping k cands = Inr nls \<Longrightarrow>
   length nls = length cands \<and>
   (\<forall>i < length cands. measureNodeLatency lr (ping (k + i)) (cands ! i) = Inr (nls ! i))"
proof (induction cands arbitrary: k nls)
  case Nil
  then show ?case by simp
next
  case (Cons c cands)
  from Cons.prems obtain m ms where m: "measureNodeLatency lr (ping k) c = Inr m"
    and ms: "measure_all lr ping (Suc k) cands = Inr ms" and nls: "nls = m # ms"
    by (auto split: sum.splits)
  from Cons.IH [OF ms] have len: "length ms = length cands"
    and nth: "\<forall>i < length cands. measureNodeLatency lr (ping (Suc k + i)) (cands ! i) = Inr (ms ! i)"
    by simp_all
  show ?case
  proof (intro conjI allI impI)
    show "length nls = length (c # cands)" using len nls by simp
  next
    fix i assume "i < length (c # cands)"
    then show "measureNodeLatency lr (ping (k + i)) ((c # cands) ! i) = Inr (nls ! i)"
      using m nth nls by (cases i) auto
  qed
qed

lemma best_loop_filter:
  "best_loop th c nls = map fst (filter (\<lambda>nl. snd nl < th) (take c nls))"
  by (induction th c nls rule: best_loop.induct) auto

lemma sort_latency_contract:
  "mset (sort_latency nls) = mset nls \<and> sorted (map snd (sort_latency nls))"
  by (simp add: sort_latency_def)

text \<open>
  On a well-formed table, with a target of 32 bytes and a count that is not negative,
  \<open>closestN\<close> returns a slice; with at least one listener the measurements return
  too.
\<close>

lemma iterate_from_nth:
  "\<forall>i \<in> set ixs. i < length ns \<Longrightarrow> iterate_from ns ixs = Inr (map ((!) ns) ixs)"
  by (induction ixs) auto

lemma bucket_iterate_ok:
  assumes "bucket_ok b"
  shows "bucket_iterate b = Inr (take (nat (b_size b)) (b_nodes b))"
proof -
  have le: "nat (b_size b) \<le> length (b_nodes b)"
    using assms by (auto simp: bucket_ok_def)
  then have "iterate_from (b_nodes b) [0 ..< nat (b_size b)] =
             Inr (map ((!) (b_nodes b)) [0 ..< nat (b_size b)])"
    by (intro iterate_from_nth) auto
  moreover have "map ((!) (b_nodes b)) [0 ..< nat (b_size b)] = take (nat (b_size b)) (b_nodes b)"
    using le by (auto simp: list_eq_iff_nth_eq)
  ultimately show ?thesis by (simp add: bucket_iterate_def)
qed

lemma closestN_loop_ok:
  assumes st: "0 \<le> start" "start < 256" and ok: "table_ok t"
  shows "scan_inv start offset i scanned \<Longrightarrow> list_all entry_ok nodes \<Longrightarrow>
         \<exists>ns. closestN_loop t cnt offset i scanned nodes = Some (Inr ns) \<and> list_all entry_ok ns"
proof (induction "nat (512 - i)" arbitrary: offset i scanned nodes rule: less_induct)
  case less
  let ?next = "if i mod 2 = 0 then offset + i + 1 else offset - i - 1"
  have step: "\<exists>ns. closestN_loop t cnt ?next (i + 1) scanned' nodes' = Some (Inr ns) \<and>
                   list_all entry_ok ns"
    if "scanned' = (if offset > -1 \<and> offset < 256 then scanned + 1 else scanned)"
      and "scanned' < 256" and "list_all entry_ok nodes'" for scanned' nodes'
  proof -
    from scan_inv_step [OF st less.prems(1) that(1,2)]
    have inv': "scan_inv start ?next (i + 1) scanned'" and i: "0 \<le> i" "i < 512"
      by simp_all
    from i have "nat (512 - (i + 1)) < nat (512 - i)" by simp
    from less.hyps [OF this inv' that(3)] show ?thesis .
  qed
  show ?case
  proof (cases "offset > -1 \<and> offset < KEY_BITS")
    case inr: True
    then have off: "nat offset < length (buckets t)" "offset < int (length (buckets t))"
      using ok by (auto simp: table_ok_def KEY_BITS_def)
    then have bok: "bucket_ok (buckets t ! nat offset)"
      using ok by (auto simp: table_ok_def list_all_length)
    let ?vs = "take (nat (b_size (buckets t ! nat offset))) (b_nodes (buckets t ! nat offset))"
    have it: "bucket_iterate (buckets t ! nat offset) = Inr ?vs"
      using bok by (rule bucket_iterate_ok)
    have all: "list_all entry_ok (nodes @ ?vs)"
      using less.prems(2) bok by (simp add: bucket_ok_def)
    show ?thesis
    proof (cases "int (length (nodes @ ?vs)) \<ge> cnt \<or> scanned + 1 \<ge> KEY_BITS")
      case True
      with inr off it all show ?thesis
        by (subst closestN_loop.simps) auto
    next
      case False
      then have "scanned + 1 < 256" by (simp add: KEY_BITS_def)
      with inr all
      have "\<exists>ns. closestN_loop t cnt ?next (i + 1) (scanned + 1) (nodes @ ?vs) = Some (Inr ns) \<and>
                 list_all entry_ok ns"
        by (intro step) (simp_all add: KEY_BITS_def)
      with inr off it False show ?thesis
        by (subst closestN_loop.simps) auto
    qed
  next
    case out: False
    show ?thesis
    proof (cases "scanned \<ge> KEY_BITS")
      case True
      with out less.prems(2) show ?thesis
        by (subst closestN_loop.simps) auto
    next
      case False
      then have "scanned < 256" by (simp add: KEY_BITS_def)
      with out less.prems(2)
      have "\<exists>ns. closestN_loop t cnt ?next (i + 1) scanned nodes = Some (Inr ns) \<and>
                 list_all entry_ok ns"
        by (intro step) (auto simp: KEY_BITS_def)
      with out False show ?thesis
        by (subst closestN_loop.simps) auto
    qed
  qed
qed

lemma distances_to_ok:
  "list_all entry_ok ns \<Longrightarrow> length ident = 32 \<Longrightarrow> \<exists>ks. distances_to ns ident = Inr ks"
proof (induction ns)
  case Nil
  then show ?case by simp
next
  case (Cons e ns)
  from Cons.prems obtain n where n: "e = Some n" "length (node_id n) = 32"
    by (auto simp: entry_ok_def split: option.splits)
  from distance_Inr [OF n(2) Cons.prems(2)] obtain d where "distance (node_id n) ident = Inr d"
    by blast
  moreover from Cons obtain ks where "distances_to ns ident = Inr ks" by auto
  ultimately show ?case using n by simp
qed

lemma closestN_ok:
  assumes "table_ok t" "length ident = 32" "0 \<le> cnt"
  shows "\<exists>ns. closestN srt t ident cnt = Some (Inr ns)"
proof -
  have "length (node_id (localNode t)) = 32"
    using assms(1) by (simp add: table_ok_def)
  from distance_Inr [OF this assms(2)] have "\<exists>off. bucketID (node_id (localNode t)) ident = Inr off"
    by (auto simp: bucketID_def Let_def)
  then obtain off where off: "bucketID (node_id (localNode t)) ident = Inr off" ..
  from bucketID_range [OF off] have r: "0 \<le> off" "off < 256" by simp_all
  have "scan_inv off off 0 0"
    unfolding scan_inv_def using r by (intro exI [of _ 0]) simp
  from closestN_loop_ok [OF r assms(1) this, of "[]" cnt]
  obtain ns where ns: "closestN_loop t cnt off 0 0 [] = Some (Inr ns)" "list_all entry_ok ns"
    by auto
  from distances_to_ok [OF ns(2) assms(2)] obtain ks where "distances_to ns ident = Inr ks"
    by blast
  then have "\<exists>sorted_ns. sort_by_distance srt ns ident = Inr sorted_ns"
    by (auto simp: sort_by_distance_def)
  then obtain sorted_ns where "sort_by_distance srt ns ident = Inr sorted_ns" ..
  with off ns(1) assms(3) show ?thesis
    by (auto simp: closestN_def)
qed

lemma measure_all_ok:
  "1 \<le> nlisteners (lr_dht lr) \<Longrightarrow> \<exists>nls. measure_all lr ping k cands = Inr nls"
proof (induction cands arbitrary: k)
  case Nil
  then show ?case by simp
next
  case (Cons c cands)
  from Cons.prems have "\<exists>m. measureNodeLatency lr (ping k) c = Inr m"
    by (auto simp: measureNodeLatency_def split: option.splits ping_result.splits)
  moreover from Cons have "\<exists>ms. measure_all lr ping (Suc k) cands = Inr ms"
    by blast
  ultimately show ?case by auto
qed

text \<open>
  With a PING that ends in one of the four outcomes of \<open>ping_result\<close> and a result
  slice that can be made, \<open>GetBestRoutes\<close> returns a list on a well-formed table; and
  it panics when candidates were found and measured and the capacity is out of range.
\<close>

lemma GetBestRoutes_returns:
  assumes "table_ok (routing (lr_dht lr))" "length target = 32" "cnt < 2 ^ 62"
    and "1 \<le> nlisteners (lr_dht lr)" and "makeslice_cap env cnt = None"
  shows "\<exists>result. GetBestRoutes env srtD srtL ping lr target cnt = Some (Inr result)"
proof -
  have c0: "0 \<le> cnt"
    using assms(5) by (auto simp: makeslice_cap_def split: if_splits)
  have w: "wrap64 (cnt * 2) = cnt * 2"
    using c0 assms(3) by (simp add: wrap64_def)
  have "0 \<le> cnt * 2" using c0 by simp
  from closestN_ok [OF assms(1,2) this, of srtD]
  obtain ns where ns: "closestN srtD (routing (lr_dht lr)) target (cnt * 2) = Some (Inr ns)"
    by blast
  from measure_all_ok [OF assms(4), of ping 0 ns]
  obtain nls where "measure_all lr ping 0 ns = Inr nls" by blast
  with ns w assms(5) show ?thesis
    by (simp add: GetBestRoutes_def)
qed

lemma GetBestRoutes_cap_out_of_range:
  assumes "closestN srtD (routing (lr_dht lr)) target (wrap64 (cnt * 2)) = Some (Inr cands)"
    and "cands \<noteq> []" and "measure_all lr ping 0 cands = Inr nls"
    and "cnt < 0 \<or> maxAlloc env < 8 * cnt"
  shows "GetBestRoutes env srtD srtL ping lr target cnt = Some (Inl CapOutOfRange)"
  using assms by (auto simp: GetBestRoutes_def makeslice_cap_def)

text \<open>
  C9. \<open>GetBestRoutes(target, count)\<close> always returns or panics (its scan of the
  buckets ends). When it returns a list, the candidates are \<open>closestN(target,
  2 * count)\<close>; there was no candidate or the slice of capacity \<open>count\<close> could be
  made; and the list has at most \<open>count\<close> nodes, each the outcome of measuring one
  candidate, in ascending order of the measured latencies, which are all strictly below
  the router's threshold. \<open>2 * count\<close> does not wrap for a count below \<open>2^62\<close> in
  absolute value; the threshold of a new router is 500 ms. The sort by latency is any
  function that returns a sorted permutation.
\<close>

theorem GetBestRoutes_sorted_below_threshold:
  assumes srtL: "\<forall>nls. mset (srtL nls) = mset nls \<and> sorted (map snd (srtL nls))"
  shows "(\<exists>r. GetBestRoutes env srtD srtL ping lr target cnt = Some r) \<and>
         (\<forall>result. GetBestRoutes env srtD srtL ping lr target cnt = Some (Inr result) \<longrightarrow>
            (\<exists>cands sel.
               closestN srtD (routing (lr_dht lr)) target (wrap64 (cnt * 2)) = Some (Inr cands) \<and>
               (cands = [] \<or> makeslice_cap env cnt = None) \<and>
               result = map fst sel \<and> length sel \<le> nat cnt \<and> sorted (map snd sel) \<and>
               (\<forall>nl \<in> set sel. snd nl < threshold lr \<and>
                  (\<exists>i < length cands. measureNodeLatency lr (ping i) (cands ! i) = Inr nl)))) \<and>
         (- (2 ^ 62) \<le> cnt \<and> cnt < 2 ^ 62 \<longrightarrow> wrap64 (cnt * 2) = 2 * cnt) \<and>
         threshold (NewLatencyRouter d) = 500 * Millisecond"
proof (intro conjI allI impI)
  assume "- (2 ^ 62) \<le> cnt \<and> cnt < 2 ^ 62"
  then show "wrap64 (cnt * 2) = 2 * cnt"
    by (simp add: wrap64_def)
next
  obtain r where "closestN srtD (routing (lr_dht lr)) target (wrap64 (cnt * 2)) = Some r"
    using closestN_terminates by blast
  then show "\<exists>r. GetBestRoutes env srtD srtL ping lr target cnt = Some r"
    by (auto simp: GetBestRoutes_def split: sum.splits option.splits)
next
  show "threshold (NewLatencyRouter d) = 500 * Millisecond"
    by (simp add: NewLatencyRouter_def defaultLatencyThreshold_def)
next
  fix result
  assume res: "GetBestRoutes env srtD srtL ping lr target cnt = Some (Inr result)"
  then obtain cands where cands:
      "closestN srtD (routing (lr_dht lr)) target (wrap64 (cnt * 2)) = Some (Inr cands)"
    by (auto simp: GetBestRoutes_def split: option.splits sum.splits)
  show "\<exists>cands sel.
          closestN srtD (routing (lr_dht lr)) target (wrap64 (cnt * 2)) = Some (Inr cands) \<and>
          (cands = [] \<or> makeslice_cap env cnt = None) \<and>
          result = map fst sel \<and> length sel \<le> nat cnt \<and> sorted (map snd sel) \<and>
          (\<forall>nl \<in> set sel. snd nl < threshold lr \<and>
             (\<exists>i < length cands. measureNodeLatency lr (ping i) (cands ! i) = Inr nl))"
  proof (cases "length cands = 0")
    case True
    with res cands have "result = []" by (simp add: GetBestRoutes_def)
    with cands True show ?thesis
      by (intro exI [of _ cands] exI [of _ "[]"]) simp
  next
    case False
    with res cands obtain nls where nls: "measure_all lr ping 0 cands = Inr nls"
      and mk: "makeslice_cap env cnt = None"
      and result: "result = best_loop (threshold lr) (nat cnt) (srtL nls)"
      by (auto simp: GetBestRoutes_def split: sum.splits if_splits option.splits)
    define sel where "sel = filter (\<lambda>nl. snd nl < threshold lr) (take (nat cnt) (srtL nls))"
    have r: "result = map fst sel"
      by (simp add: result sel_def best_loop_filter)
    have l: "length sel \<le> nat cnt"
      unfolding sel_def by (rule order_trans [OF length_filter_le]) simp
    have "sorted (map snd (take (nat cnt) (srtL nls)))"
      using srtL by (simp add: take_map [symmetric] sorted_wrt_take)
    then have s: "sorted (map snd sel)"
      unfolding sel_def by (rule sorted_filter)
    have m: "snd nl < threshold lr \<and>
             (\<exists>i < length cands. measureNodeLatency lr (ping i) (cands ! i) = Inr nl)"
      if "nl \<in> set sel" for nl
    proof -
      from that have lt: "snd nl < threshold lr" and "nl \<in> set (srtL nls)"
        by (auto simp: sel_def dest: in_set_takeD)
      moreover have "set (srtL nls) = set nls"
        using srtL by (metis mset_eq_setD)
      ultimately obtain i where i: "i < length nls" "nls ! i = nl"
        by (auto simp: in_set_conv_nth)
      from measure_all_nth [OF nls] i
      have "i < length cands \<and> measureNodeLatency lr (ping i) (cands ! i) = Inr nl"
        by auto
      with lt show ?thesis by blast
    qed
    from cands mk r l s m show ?thesis by blast
  qed
qed

text \<open>
  The example: of the four peers at 600 ms, 50 ms, 10 ms and 700 ms and the local
  node, which does not answer, a count of 3 keeps the entries at 10 ms, 50 ms and
  600 ms, and the threshold removes the last one; a count of 2 gives the same list; a
  count of \<open>2^61\<close> panics when the result slice is made.
\<close>

theorem GetBestRoutes_sorted_below_threshold_witness:
  "(\<forall>nls. mset (sort_latency nls) = mset nls \<and> sorted (map snd (sort_latency nls))) \<and>
   GetBestRoutes example_env sort_distance_desc sort_latency (\<lambda>i n. TimedOut) example_router
       (replicate 32 4) 3 =
     Some (Inr [Some ((probe 6 (10 * Millisecond))\<lparr>seen := 5\<rparr>),
                Some ((probe 5 (50 * Millisecond))\<lparr>seen := 5\<rparr>)]) \<and>
   (\<exists>cands sel.
      closestN sort_distance_desc (routing (lr_dht example_router)) (replicate 32 4) (wrap64 (3 * 2)) =
        Some (Inr cands) \<and>
      (cands = [] \<or> makeslice_cap example_env 3 = None) \<and>
      [Some ((probe 6 (10 * Millisecond))\<lparr>seen := 5\<rparr>),
       Some ((probe 5 (50 * Millisecond))\<lparr>seen := 5\<rparr>)] = map fst sel \<and>
      length sel \<le> nat 3 \<and> sorted (map snd sel) \<and>
      (\<forall>nl \<in> set sel. snd nl < threshold example_router \<and>
         (\<exists>i < length cands.
            measureNodeLatency example_router (\<lambda>n. TimedOut) (cands ! i) = Inr nl))) \<and>
   map_option (map_sum id (map (map_option latency)))
     (closestN sort_distance_desc (routing (lr_dht example_router)) (replicate 32 4) 6) =
     Some (Inr [Some (600 * Millisecond), Some (50 * Millisecond), Some (10 * Millisecond),
                Some (700 * Millisecond), Some 0]) \<and>
   GetBestRoutes example_env sort_distance_desc sort_latency (\<lambda>i n. TimedOut) example_router
       (replicate 32 4) 2 =
     Some (Inr [Some ((probe 6 (10 * Millisecond))\<lparr>seen := 5\<rparr>),
                Some ((probe 5 (50 * Millisecond))\<lparr>seen := 5\<rparr>)]) \<and>
   GetBestRoutes example_env sort_distance_desc sort_latency (\<lambda>i n. TimedOut) example_router
       (replicate 32 4) (2 ^ 61) = Some (Inl CapOutOfRange)"
proof -
  have hyp: "\<forall>nls. mset (sort_latency nls) = mset nls \<and> sorted (map snd (sort_latency nls))"
    using sort_latency_contract by blast
  have ev: "GetBestRoutes example_env sort_distance_desc sort_latency (\<lambda>i n. TimedOut)
              example_router (replicate 32 4) 3 =
            Some (Inr [Some ((probe 6 (10 * Millisecond))\<lparr>seen := 5\<rparr>),
                       Some ((probe 5 (50 * Millisecond))\<lparr>seen := 5\<rparr>)])"
    by code_simp
  from GetBestRoutes_sorted_below_threshold
         [OF hyp, of example_env sort_distance_desc "\<lambda>i n. TimedOut" example_router
            "replicate 32 4" 3]
       ev
  have "\<exists>cands sel.
      closestN sort_distance_desc (routing (lr_dht example_router)) (replicate 32 4) (wrap64 (3 * 2)) =
        Some (Inr cands) \<and>
      (cands = [] \<or> makeslice_cap example_env 3 = None) \<and>
      [Some ((probe 6 (10 * Millisecond))\<lparr>seen := 5\<rparr>),
       Some ((probe 5 (50 * Millisecond))\<lparr>seen := 5\<rparr>)] = map fst sel \<and>
      length sel \<le> nat 3 \<and> sorted (map snd sel) \<and>
      (\<forall>nl \<in> set sel. snd nl < threshold example_router \<and>
         (\<exists>i < length cands.
            measureNodeLatency example_router (\<lambda>n. TimedOut) (cands ! i) = Inr nl))"
    by blast
  moreover have "map_option (map_sum id (map (map_option latency)))
     (closestN sort_distance_desc (routing (lr_dht example_router)) (replicate 32 4) 6) =
     Some (Inr [Some (600 * Millisecond), Some (50 * Millisecond), Some (10 * Millisecond),
                Some (700 * Millisecond), Some 0])"
    by code_simp
  moreover have "GetBestRoutes example_env sort_distance_desc sort_latency (\<lambda>i n. TimedOut)
       example_router (replicate 32 4) 2 =
     Some (Inr [Some ((probe 6 (10 * Millisecond))\<lparr>seen := 5\<rparr>),
                Some ((probe 5 (50 * Millisecond))\<lparr>seen := 5\<rparr>)])"
    by code_simp
  moreover have "GetBestRoutes example_env sort_distance_desc sort_latency (\<lambda>i n. TimedOut)
       example_router (replicate 32 4) (2 ^ 61) = Some (Inl CapOutOfRange)"
    by code_simp
  ultimately show ?thesis using hyp ev by simp
qed

section \<open>Properties of Store\<close>

lemma store_loop_callbacks:
  "store_loop we key val ttl created tot ns eff = Inr eff' \<Longrightarrow>
   set (callbacks eff') \<subseteq> set (callbacks eff) \<union> {None} \<union> (Some \<circ> ErrWrite) ` UNIV"
proof (induction we key val ttl created tot ns eff rule: store_loop.induct)
  case (1 we key val ttl created tot eff)
  then show ?case by auto
next
  case (2 we key val ttl created tot ns eff)
  then show ?case by simp
next
  case (3 we key val ttl created tot n ns eff)
  show ?case
  proof (cases "node_id n = LocalID (dht eff)")
    case True
    with 3 show ?thesis
      by (auto simp: Let_def split: if_splits)
  next
    case False
    with 3 show ?thesis
      by (auto simp: Let_def split: if_splits sum.splits prod.splits option.splits)
  qed
qed

text \<open>
  C2. \<open>Store\<close> always returns or panics. With a key whose length is not 32 it
  invokes the callback once, with the key-length error, sends no request and leaves
  the DHT (and so the local storage) as it was; with a value longer than 32768 bytes
  it does the same, with the value-length error when the key is good. With a key of
  32 bytes and a value of at most 32768 bytes, no callback that \<open>Store\<close> makes
  carries either of the two errors.
\<close>

theorem Store_rejects_bad_key_or_value:
  "(\<exists>r. Store srtD we d key val ttl now = Some r) \<and>
   (length key \<noteq> 32 \<longrightarrow>
      Store srtD we d key val ttl now =
        Some (Inr \<lparr>callbacks = [Some ErrKeyLength], requests = [], dht = d\<rparr>)) \<and>
   (length val > 32768 \<longrightarrow>
      Store srtD we d key val ttl now =
        Some (Inr \<lparr>callbacks = [Some (if length key \<noteq> 32 then ErrKeyLength else ErrValueLength)],
                    requests = [], dht = d\<rparr>)) \<and>
   (length key = 32 \<and> length val \<le> 32768 \<longrightarrow>
      (\<forall>eff. Store srtD we d key val ttl now = Some (Inr eff) \<longrightarrow>
         Some ErrKeyLength \<notin> set (callbacks eff) \<and> Some ErrValueLength \<notin> set (callbacks eff)))"
proof (intro conjI impI allI)
  obtain r where "closestN srtD (routing d) key K = Some r"
    using closestN_terminates by blast
  then show "\<exists>r. Store srtD we d key val ttl now = Some r"
    by (auto simp: Store_def split: sum.splits)
next
  assume "length key \<noteq> 32"
  then show "Store srtD we d key val ttl now =
        Some (Inr \<lparr>callbacks = [Some ErrKeyLength], requests = [], dht = d\<rparr>)"
    by (simp add: Store_def KEY_BYTES_def KEY_BITS_def)
next
  assume "length val > 32768"
  then show "Store srtD we d key val ttl now =
        Some (Inr \<lparr>callbacks = [Some (if length key \<noteq> 32 then ErrKeyLength else ErrValueLength)],
                    requests = [], dht = d\<rparr>)"
    by (simp add: Store_def KEY_BYTES_def KEY_BITS_def VALUE_BYTES_def)
next
  fix eff
  assume ok: "length key = 32 \<and> length val \<le> 32768"
    and res: "Store srtD we d key val ttl now = Some (Inr eff)"
  from ok res have "callbacks eff = [Some ErrNoNodes] \<or>
      (\<exists>ns tot. store_loop we key val ttl now tot ns
          \<lparr>callbacks = [], requests = [], dht = d\<rparr> = Inr eff)"
    by (auto simp: Store_def KEY_BYTES_def KEY_BITS_def VALUE_BYTES_def
        split: option.splits sum.splits if_splits)
  then have "set (callbacks eff) \<subseteq> {Some ErrNoNodes, None} \<union> (Some \<circ> ErrWrite) ` UNIV"
    using store_loop_callbacks by fastforce
  then show "Some ErrKeyLength \<notin> set (callbacks eff)" and "Some ErrValueLength \<notin> set (callbacks eff)"
    by auto
qed


theorem Store_rejects_bad_key_or_value_witness:
  "length (replicate 31 (3 :: byte)) \<noteq> 32 \<and>
   Store sort_distance_desc (\<lambda>q. None) example_dht (replicate 31 3) [1, 2, 3] Hour 77 =
     Some (Inr \<lparr>callbacks = [Some ErrKeyLength], requests = [], dht = example_dht\<rparr>) \<and>
   length (replicate 32769 (0 :: byte)) > 32768 \<and>
   Store sort_distance_desc (\<lambda>q. None) example_dht key1 (replicate 32769 0) Hour 77 =
     Some (Inr \<lparr>callbacks = [Some ErrValueLength], requests = [], dht = example_dht\<rparr>) \<and>
   length key1 = 32 \<and> length [1, 2, 3 :: byte] \<le> 32768 \<and>
   (\<exists>eff. Store sort_distance_desc (\<lambda>q. None) example_dht key1 [1, 2, 3] Hour 77 = Some (Inr eff) \<and>
      map fst (requests eff) = [0, 1, 0, 1] \<and>
      Some ErrKeyLength \<notin> set (callbacks eff) \<and> Some ErrValueLength \<notin> set (callbacks eff))"
proof -
  have k: "length key1 = 32"
    by (simp add: key1_def)
  have "map_option (map_sum id (\<lambda>e. map fst (requests e)))
          (Store sort_distance_desc (\<lambda>q. None) example_dht key1 [1, 2, 3] Hour 77) =
        Some (Inr [0, 1, 0, 1])"
    by code_simp
  then obtain eff where eff:
      "Store sort_distance_desc (\<lambda>q. None) example_dht key1 [1, 2, 3] Hour 77 = Some (Inr eff)"
      "map fst (requests eff) = [0, 1, 0, 1]"
    by (cases "Store sort_distance_desc (\<lambda>q. None) example_dht key1 [1, 2, 3] Hour 77")
       (auto simp: map_sum_def split: sum.splits)
  from Store_rejects_bad_key_or_value
         [where key = key1 and val = "[1, 2, 3]" and srtD = sort_distance_desc
            and we = "\<lambda>q. None" and d = example_dht and ttl = Hour and now = 77] k eff(1)
  have ok: "Some ErrKeyLength \<notin> set (callbacks eff) \<and> Some ErrValueLength \<notin> set (callbacks eff)"
    by simp
  from Store_rejects_bad_key_or_value
         [where key = "replicate 31 3" and val = "[1, 2, 3]" and srtD = sort_distance_desc
            and we = "\<lambda>q. None" and d = example_dht and ttl = Hour and now = 77]
  have bad_key: "Store sort_distance_desc (\<lambda>q. None) example_dht (replicate 31 3) [1, 2, 3] Hour 77 =
     Some (Inr \<lparr>callbacks = [Some ErrKeyLength], requests = [], dht = example_dht\<rparr>)"
    by simp
  from Store_rejects_bad_key_or_value
         [where key = key1 and val = "replicate 32769 0" and srtD = sort_distance_desc
            and we = "\<lambda>q. None" and d = example_dht and ttl = Hour and now = 77] k
  have bad_val: "Store sort_distance_desc (\<lambda>q. None) example_dht key1 (replicate 32769 0) Hour 77 =
     Some (Inr \<lparr>callbacks = [Some ErrValueLength], requests = [], dht = example_dht\<rparr>)"
    by simp
  from k eff ok bad_key bad_val show ?thesis by auto
qed

end
